theory Spec2Isabelle
  imports Main "HOL-Library.Word"
begin

section \<open>The bridge command interpreter of \<^verbatim>\<open>bridge-commands.cpp\<close>\<close>

text \<open>
  The source builds a program of command objects (\<^verbatim>\<open>std::make_shared\<close>) that are
  referenced from queues and from the command stack through shared pointers, and it
  mutates these objects in place while it runs. The model therefore keeps an explicit
  store: \<open>heap\<close> is the list of all command objects ever allocated, an address is an
  index into it, and \<^verbatim>\<open>make_shared\<close> appends a new object. Queues and the stack hold
  addresses, so copying a queue copies references, exactly as copying a
  \<^verbatim>\<open>std::queue<std::shared_ptr<BridgeCommand>>\<close> does.
\<close>

subsection \<open>Data\<close>

type_synonym addr = nat

text \<open>
  A callback (\<^verbatim>\<open>bridge_func_t\<close>) is external code returning an \<^verbatim>\<open>int\<close>. It is modelled
  as a function on an external world \<open>'w\<close> that it may read and change; the opaque
  orchestrator handle it receives is not used to reach back into the interpreter.
\<close>

type_synonym 'w bridge_func_t = "'w \<Rightarrow> 32 word \<times> 'w"

text \<open>
  The class hierarchy below \<^verbatim>\<open>BridgeCommand\<close>, one constructor per class with the
  members the source file reads: \<^verbatim>\<open>m_cb\<close>; \<^verbatim>\<open>m_delay\<close> (the count of a
  \<^verbatim>\<open>std::chrono::microseconds\<close>, 64 bit); \<^verbatim>\<open>m_command_queue\<close> (front of the queue
  is the head of the list); for a repeat \<^verbatim>\<open>m_delay\<close>, \<^verbatim>\<open>m_repeat_times\<close> (an
  \<^verbatim>\<open>int\<close>) and the \<^verbatim>\<open>m_command_queue\<close> it inherits from the collection class;
  \<^verbatim>\<open>m_ioloop\<close>.
\<close>

datatype ('w, 'io) bridge_command =
    BridgeCommandExecute "'w bridge_func_t"
  | BridgeCommandDelay "64 word"
  | BridgeCommandCollection "addr list"
  | BridgeCommandRepeat "64 word" "32 word" "addr list"
  | BridgeCommandWaitExit 'io

datatype bridge_error = BridgeUnmatchedLoopException | UndefinedBehaviour

text \<open>
  The orchestrator \<^verbatim>\<open>BridgeCommands\<close>. Besides the store, \<^verbatim>\<open>m_command_stack\<close> (top
  first) and \<^verbatim>\<open>m_return_value\<close>, the record carries what the external collaborators
  hold: the callbacks' \<open>world\<close>, the delays with which the event loop was asked to arm
  the timer (\<open>timer_delays\<close>, oldest first) and the pending one-shot registrations of
  the lifecycle collaborator (\<open>on_exit_callbacks\<close>; every registration made by this
  code has the same body, a call of \<^verbatim>\<open>queue_next_command\<close>).
\<close>

record ('w, 'io) bridge_commands =
  heap :: "('w, 'io) bridge_command list"
  m_command_stack :: "addr list"
  m_return_value :: "32 word"
  world :: 'w
  timer_delays :: "64 word list"
  on_exit_callbacks :: "'io list"

subsection \<open>Command execution\<close>

text \<open>
  \<^verbatim>\<open>kEventLoopTimerDone\<close> is declared in a header that is not part of the source
  file; every function that uses it takes its value as the parameter \<open>done\<close>.
  The two \<^verbatim>\<open>printf\<close> calls of \<^verbatim>\<open>BridgeCommandExecute::execute\<close> only write
  to the terminal and are left out.
\<close>

definition BridgeCommandExecute_execute ::
  "64 word \<Rightarrow> 'w bridge_func_t \<Rightarrow> ('w, 'io) bridge_commands
    \<Rightarrow> bridge_error + 64 word \<times> ('w, 'io) bridge_commands" where
  "BridgeCommandExecute_execute done m_cb bc =
     (let (rv, w) = m_cb (world bc);
          bc' = bc\<lparr>m_return_value := rv, world := w\<rparr>
      in Inr (if m_return_value bc' \<noteq> 0 then 0 else done, bc'))"

text \<open>
  Modelled from the spec: \<^verbatim>\<open>BridgeCommandDelay::execute\<close> is defined in the missing
  header; a delay step has no side effect and always continues after its configured
  duration.
\<close>

definition BridgeCommandDelay_execute ::
  "64 word \<Rightarrow> ('w, 'io) bridge_commands
    \<Rightarrow> bridge_error + 64 word \<times> ('w, 'io) bridge_commands" where
  "BridgeCommandDelay_execute m_delay bc = Inr (m_delay, bc)"

text \<open>\<^verbatim>\<open>m_command_stack.pop()\<close>; popping an empty \<^verbatim>\<open>std::stack\<close> is undefined.\<close>

definition stack_pop ::
  "('w, 'io) bridge_commands \<Rightarrow> bridge_error + ('w, 'io) bridge_commands" where
  "stack_pop bc =
     (case m_command_stack bc of
        [] \<Rightarrow> Inl UndefinedBehaviour
      | _ # below \<Rightarrow> Inr (bc\<lparr>m_command_stack := below\<rparr>))"

text \<open>
  \<^verbatim>\<open>BridgeCommandRepeat::execute\<close> on the repeat object at address \<open>this\<close>. The
  post-decrement writes the counter back before either branch runs (it wraps here at
  the smallest \<^verbatim>\<open>int\<close>, where C++ leaves the result undefined); the comparison uses
  the value read before. The new collection is a fresh object whose queue is a copy of
  the repeat's queue of references.
\<close>

definition BridgeCommandRepeat_execute ::
  "addr \<Rightarrow> 64 word \<Rightarrow> 32 word \<Rightarrow> addr list \<Rightarrow> ('w, 'io) bridge_commands
    \<Rightarrow> bridge_error + 64 word \<times> ('w, 'io) bridge_commands" where
  "BridgeCommandRepeat_execute this m_delay m_repeat_times m_command_queue bc =
     (let bc1 = bc\<lparr>heap := (heap bc)
                  [this := BridgeCommandRepeat m_delay (m_repeat_times - 1) m_command_queue]\<rparr>
      in if sint m_repeat_times \<le> 0 then
           (case stack_pop bc1 of
              Inl e \<Rightarrow> Inl e
            | Inr bc2 \<Rightarrow> Inr (m_delay, bc2))
         else
           Inr (m_delay,
                bc1\<lparr>heap := heap bc1 @ [BridgeCommandCollection m_command_queue],
                    m_command_stack := length (heap bc1) # m_command_stack bc1\<rparr>))"

definition BridgeCommandWaitExit_execute ::
  "64 word \<Rightarrow> 'io \<Rightarrow> ('w, 'io) bridge_commands
    \<Rightarrow> bridge_error + 64 word \<times> ('w, 'io) bridge_commands" where
  "BridgeCommandWaitExit_execute done m_ioloop bc =
     Inr (done, bc\<lparr>on_exit_callbacks := on_exit_callbacks bc @ [m_ioloop]\<rparr>)"

fun queue_size :: "('w, 'io) bridge_command \<Rightarrow> nat" where
  "queue_size (BridgeCommandCollection q) = length q"
| "queue_size _ = 0"

text \<open>
  The virtual call \<^verbatim>\<open>command->execute(bc)\<close>: dispatch on the class of the object at
  address \<open>this\<close>. The collection case is \<^verbatim>\<open>BridgeCommandCollection::execute\<close>; it
  calls \<open>execute\<close> again on the command it has dequeued. A shared pointer always
  refers to a live object, so an address outside the store has no counterpart in the
  source and is reported as \<open>UndefinedBehaviour\<close>.
\<close>

function execute ::
  "64 word \<Rightarrow> ('w, 'io) bridge_commands \<Rightarrow> addr
    \<Rightarrow> bridge_error + 64 word \<times> ('w, 'io) bridge_commands" where
  "execute done bc this =
     (if length (heap bc) \<le> this then Inl UndefinedBehaviour
      else case heap bc ! this of
        BridgeCommandExecute m_cb \<Rightarrow> BridgeCommandExecute_execute done m_cb bc
      | BridgeCommandDelay m_delay \<Rightarrow> BridgeCommandDelay_execute m_delay bc
      | BridgeCommandCollection m_command_queue \<Rightarrow>
          (case m_command_queue of
             [] \<Rightarrow> (case stack_pop bc of
                      Inl e \<Rightarrow> Inl e
                    | Inr bc' \<Rightarrow> Inr (0, bc'))
           | command # rest \<Rightarrow>
               execute done
                 (bc\<lparr>heap := (heap bc)[this := BridgeCommandCollection rest]\<rparr>) command)
      | BridgeCommandRepeat m_delay m_repeat_times m_command_queue \<Rightarrow>
          BridgeCommandRepeat_execute this m_delay m_repeat_times m_command_queue bc
      | BridgeCommandWaitExit m_ioloop \<Rightarrow> BridgeCommandWaitExit_execute done m_ioloop bc)"
  by pat_completeness auto

termination execute
proof (relation "measure (\<lambda>(done, bc, this). sum_list (map queue_size (heap bc)))", goal_cases)
  case 1
  show ?case by simp
next
  case (2 d bc this q command rest)
  let ?h = "heap bc"
  have len: "this < length ?h" and obj: "?h ! this = BridgeCommandCollection (command # rest)"
    using 2 by simp_all
  have "sum_list ((map queue_size ?h)[this := length rest])
          = sum_list (map queue_size ?h) + length rest - map queue_size ?h ! this"
    using len by (simp add: sum_list_update)
  moreover have "map queue_size ?h ! this = Suc (length rest)"
    using len obj by simp
  moreover have "map queue_size ?h ! this \<le> sum_list (map queue_size ?h)"
    using len by (simp add: member_le_sum_list)
  ultimately have "sum_list (map queue_size (?h[this := BridgeCommandCollection rest]))
                     < sum_list (map queue_size ?h)"
    by (simp add: map_update)
  then show ?case by simp
qed

declare execute.simps [simp del]

subsection \<open>The scheduler driver\<close>

text \<open>
  The lambda that \<^verbatim>\<open>queue_next_command\<close> hands to the event loop. The stack holds
  pointers to collections; the call on the top frame is virtual, so it is \<open>execute\<close>.
\<close>

definition timer_event ::
  "64 word \<Rightarrow> ('w, 'io) bridge_commands
    \<Rightarrow> bridge_error + 64 word \<times> ('w, 'io) bridge_commands" where
  "timer_event done bc =
     (case m_command_stack bc of
        [] \<Rightarrow> Inr (done, bc)
      | frame # _ \<Rightarrow> execute done bc frame)"

text \<open>
  Modelled from the spec: the event loop (\<^verbatim>\<open>m_bridge_loop\<close>) is an external
  collaborator. A timer callback returns either a new delay, and the loop re-arms the
  timer after that delay, or the halt signal \<^verbatim>\<open>kEventLoopTimerDone\<close>, and the loop
  unregisters the timer; running the loop returns when no timer is armed. Each
  invocation of the callback uses one unit of \<open>fuel\<close>; \<open>None\<close> means the fuel ran
  out before the loop returned.
\<close>

fun bridge_loop_run ::
  "64 word \<Rightarrow> nat \<Rightarrow> ('w, 'io) bridge_commands
    \<Rightarrow> (bridge_error + ('w, 'io) bridge_commands) option" where
  "bridge_loop_run done 0 bc = None"
| "bridge_loop_run done (Suc fuel) bc =
     (case timer_event done bc of
        Inl e \<Rightarrow> Some (Inl e)
      | Inr (r, bc') \<Rightarrow>
          if r = done then Some (Inr bc')
          else bridge_loop_run done fuel (bc'\<lparr>timer_delays := timer_delays bc' @ [r]\<rparr>))"

text \<open>\<^verbatim>\<open>getTimerEvent(callback, 0)\<close> arms the timer with delay 0, then the loop runs.\<close>

definition queue_next_command ::
  "64 word \<Rightarrow> nat \<Rightarrow> ('w, 'io) bridge_commands
    \<Rightarrow> (bridge_error + ('w, 'io) bridge_commands) option" where
  "queue_next_command done fuel bc =
     bridge_loop_run done fuel (bc\<lparr>timer_delays := timer_delays bc @ [0]\<rparr>)"

definition start_bridge ::
  "64 word \<Rightarrow> nat \<Rightarrow> ('w, 'io) bridge_commands
    \<Rightarrow> (bridge_error + 32 word \<times> ('w, 'io) bridge_commands) option" where
  "start_bridge done fuel bc =
     (if length (m_command_stack bc) \<noteq> 1 then Some (Inl BridgeUnmatchedLoopException)
      else case queue_next_command done fuel bc of
        None \<Rightarrow> None
      | Some (Inl e) \<Rightarrow> Some (Inl e)
      | Some (Inr bc') \<Rightarrow> Some (Inr (m_return_value bc', bc')))"

text \<open>
  Modelled from the spec: the lifecycle collaborator (\<^verbatim>\<open>Ioloop\<close>) fires a registered
  on-exit callback at most once per registration. Signalling the exit of \<open>io\<close>
  consumes one pending registration for it and runs the callback that
  \<^verbatim>\<open>BridgeCommandWaitExit::execute\<close> registered, which calls
  \<^verbatim>\<open>queue_next_command\<close>; without a registration the signal does nothing.
\<close>

definition ioloop_exit ::
  "64 word \<Rightarrow> nat \<Rightarrow> 'io \<Rightarrow> ('w, 'io) bridge_commands
    \<Rightarrow> (bridge_error + ('w, 'io) bridge_commands) option" where
  "ioloop_exit done fuel io bc =
     (if io \<in> set (on_exit_callbacks bc)
      then queue_next_command done fuel
             (bc\<lparr>on_exit_callbacks := remove1 io (on_exit_callbacks bc)\<rparr>)
      else Some (Inr bc))"

subsection \<open>Authoring\<close>

text \<open>
  Modelled from the spec: the constructor is in the missing header; the root
  collection is created once, at construction, and is the only frame on the stack.
  The initial \<^verbatim>\<open>m_return_value\<close> is taken to be 0; no theorem depends on it.
\<close>

definition BridgeCommands :: "'w \<Rightarrow> ('w, 'io) bridge_commands" where
  "BridgeCommands w =
     \<lparr>heap = [BridgeCommandCollection []], m_command_stack = [0], m_return_value = 0,
      world = w, timer_delays = [], on_exit_callbacks = []\<rparr>"

text \<open>
  Modelled from the spec: \<^verbatim>\<open>add_command\<close> is in the missing header; it appends the
  node to the frame's sequence, so that append order is execution order. Here it is
  combined with the \<^verbatim>\<open>make_shared\<close> of its argument and with
  \<^verbatim>\<open>m_command_stack.top()\<close>, as every call site does: the new object gets the next
  free address, which is returned. \<^verbatim>\<open>top()\<close> of an empty stack is undefined.
\<close>

definition add_command ::
  "('w, 'io) bridge_command \<Rightarrow> ('w, 'io) bridge_commands
    \<Rightarrow> bridge_error + addr \<times> ('w, 'io) bridge_commands" where
  "add_command command bc =
     (case m_command_stack bc of
        [] \<Rightarrow> Inl UndefinedBehaviour
      | frame # _ \<Rightarrow>
          if length (heap bc) \<le> frame then Inl UndefinedBehaviour
          else
            let p = length (heap bc); h = heap bc @ [command]
            in case heap bc ! frame of
                 BridgeCommandCollection q \<Rightarrow>
                   Inr (p, bc\<lparr>heap := h[frame := BridgeCommandCollection (q @ [p])]\<rparr>)
               | BridgeCommandRepeat d n q \<Rightarrow>
                   Inr (p, bc\<lparr>heap := h[frame := BridgeCommandRepeat d n (q @ [p])]\<rparr>)
               | _ \<Rightarrow> Inl UndefinedBehaviour)"

definition add_execute ::
  "'w bridge_func_t \<Rightarrow> ('w, 'io) bridge_commands \<Rightarrow> bridge_error + ('w, 'io) bridge_commands" where
  "add_execute cb bc =
     (case add_command (BridgeCommandExecute cb) bc of
        Inl e \<Rightarrow> Inl e
      | Inr (_, bc') \<Rightarrow> Inr bc')"

definition add_repeat_start ::
  "64 word \<Rightarrow> 32 word \<Rightarrow> ('w, 'io) bridge_commands \<Rightarrow> bridge_error + ('w, 'io) bridge_commands" where
  "add_repeat_start delay count bc =
     (case add_command (BridgeCommandRepeat delay count []) bc of
        Inl e \<Rightarrow> Inl e
      | Inr (cloop, bc') \<Rightarrow> Inr (bc'\<lparr>m_command_stack := cloop # m_command_stack bc'\<rparr>))"

definition add_repeat_end ::
  "('w, 'io) bridge_commands \<Rightarrow> bridge_error + ('w, 'io) bridge_commands" where
  "add_repeat_end bc =
     (if length (m_command_stack bc) \<le> 1 then Inl BridgeUnmatchedLoopException
      else stack_pop bc)"

definition add_delay ::
  "64 word \<Rightarrow> ('w, 'io) bridge_commands \<Rightarrow> bridge_error + ('w, 'io) bridge_commands" where
  "add_delay usecs bc =
     (case add_command (BridgeCommandDelay usecs) bc of
        Inl e \<Rightarrow> Inl e
      | Inr (_, bc') \<Rightarrow> Inr bc')"

definition add_wait_exit ::
  "'io \<Rightarrow> ('w, 'io) bridge_commands \<Rightarrow> bridge_error + ('w, 'io) bridge_commands" where
  "add_wait_exit ioloop bc =
     (case add_command (BridgeCommandWaitExit ioloop) bc of
        Inl e \<Rightarrow> Inl e
      | Inr (_, bc') \<Rightarrow> Inr bc')"

text \<open>
  A client's authoring script: the sequence of builder calls it makes on a fresh
  orchestrator. An exception ends the script.
\<close>

datatype ('w, 'io) builder_call =
    AddExecute "'w bridge_func_t"
  | AddRepeatStart "64 word" "32 word"
  | AddRepeatEnd
  | AddDelay "64 word"
  | AddWaitExit 'io

fun apply_call ::
  "('w, 'io) builder_call \<Rightarrow> ('w, 'io) bridge_commands
    \<Rightarrow> bridge_error + ('w, 'io) bridge_commands" where
  "apply_call (AddExecute cb) bc = add_execute cb bc"
| "apply_call (AddRepeatStart delay count) bc = add_repeat_start delay count bc"
| "apply_call AddRepeatEnd bc = add_repeat_end bc"
| "apply_call (AddDelay usecs) bc = add_delay usecs bc"
| "apply_call (AddWaitExit ioloop) bc = add_wait_exit ioloop bc"

fun author ::
  "('w, 'io) builder_call list \<Rightarrow> ('w, 'io) bridge_commands
    \<Rightarrow> bridge_error + ('w, 'io) bridge_commands" where
  "author [] bc = Inr bc"
| "author (c # cs) bc =
     (case apply_call c bc of
        Inl e \<Rightarrow> Inl e
      | Inr bc' \<Rightarrow> author cs bc')"

subsection \<open>Example programs\<close>

text \<open>A callback that appends its name to the world and returns the given value.\<close>

definition named_callback :: "string \<Rightarrow> 32 word \<Rightarrow> string list bridge_func_t" where
  "named_callback name rv = (\<lambda>w. (rv, w @ [name]))"

text \<open>An orchestrator over string-list worlds with the given store and stack.\<close>

definition orchestrator ::
  "(string list, nat) bridge_command list \<Rightarrow> addr list
    \<Rightarrow> (string list, nat) bridge_commands" where
  "orchestrator h st =
     \<lparr>heap = h, m_command_stack = st, m_return_value = 0, world = [],
      timer_delays = [], on_exit_callbacks = []\<rparr>"

text \<open>
  The scenario of the specification: run A, then repeat twice (with delay 1000) the
  body "wait 500, run B", then run C; every callback returns 1.
\<close>

definition repeat_scenario :: "(string list, nat) builder_call list" where
  "repeat_scenario =
     [AddExecute (named_callback ''A'' 1), AddRepeatStart 1000 2, AddDelay 500,
      AddExecute (named_callback ''B'' 1), AddRepeatEnd, AddExecute (named_callback ''C'' 1)]"

text \<open>Author a script on a fresh orchestrator, then start the bridge.\<close>

definition run_script ::
  "64 word \<Rightarrow> nat \<Rightarrow> ('w, 'io) builder_call list \<Rightarrow> 'w
    \<Rightarrow> (bridge_error + 32 word \<times> ('w, 'io) bridge_commands) option" where
  "run_script done fuel calls w =
     (case author calls (BridgeCommands w) of
        Inl e \<Rightarrow> Some (Inl e)
      | Inr bc \<Rightarrow> start_bridge done fuel bc)"

text \<open>
  What a client can see of a finished run: the returned value, the world the callbacks
  left, the command stack and the delays the timer was armed with.
\<close>

definition observe ::
  "(bridge_error + 32 word \<times> ('w, 'io) bridge_commands) option
    \<Rightarrow> (bridge_error + 32 word \<times> 'w \<times> addr list \<times> 64 word list) option" where
  "observe res =
     map_option (map_sum id (\<lambda>(rv, bc). (rv, world bc, m_command_stack bc, timer_delays bc))) res"

text \<open>A repeat block with count 0 between two callbacks that return 1.\<close>

definition zero_repeat_scenario :: "(string list, nat) builder_call list" where
  "zero_repeat_scenario =
     [AddExecute (named_callback ''A'' 1), AddRepeatStart 1000 0,
      AddExecute (named_callback ''B'' 1), AddRepeatEnd, AddExecute (named_callback ''C'' 1)]"

text \<open>The second scenario of the specification: A returns 0 and C is queued after it.\<close>

definition halt_scenario :: "(string list, nat) builder_call list" where
  "halt_scenario = [AddExecute (named_callback ''A'' 0), AddExecute (named_callback ''C'' 1)]"


text \<open>A repeat block (count 1) whose body is an empty repeat block with count 0, then B.\<close>

definition nested_zero_scenario :: "(string list, nat) builder_call list" where
  "nested_zero_scenario =
     [AddRepeatStart 0 1, AddRepeatStart 0 0, AddRepeatEnd,
      AddExecute (named_callback ''B'' 1), AddRepeatEnd, AddExecute (named_callback ''C'' 1)]"

subsection \<open>Well-formed stores and a bound on the length of a run\<close>

text \<open>
  The predicates and measures below are used only to prove that the run of an authored
  program returns. \<open>heap_fresh\<close> holds of every store that authoring builds: a queue
  refers only to objects allocated after its owner, and never to a plain collection.
  \<open>frames_ok\<close> is what a run preserves: queues refer to live objects that are not
  plain collections, a repeat's queue refers to younger objects, and the frames on the
  stack are distinct plain collections. \<open>node_cost\<close> bounds the number of timer events
  that executing one queued command can cause, \<open>stack_cost\<close> the number the whole
  stack can still cause.
\<close>

fun is_collection :: "('w, 'io) bridge_command \<Rightarrow> bool" where
  "is_collection (BridgeCommandCollection q) = True"
| "is_collection _ = False"

fun is_repeat :: "('w, 'io) bridge_command \<Rightarrow> bool" where
  "is_repeat (BridgeCommandRepeat d n q) = True"
| "is_repeat _ = False"

fun command_queue :: "('w, 'io) bridge_command \<Rightarrow> addr list" where
  "command_queue (BridgeCommandCollection q) = q"
| "command_queue (BridgeCommandRepeat d n q) = q"
| "command_queue _ = []"

definition heap_ok :: "('w, 'io) bridge_command list \<Rightarrow> bool" where
  "heap_ok h =
     (\<forall>a<length h. \<forall>p\<in>set (command_queue (h ! a)).
        p < length h \<and> \<not> is_collection (h ! p) \<and> (is_repeat (h ! a) \<longrightarrow> a < p))"

definition frames_ok :: "('w, 'io) bridge_command list \<Rightarrow> addr list \<Rightarrow> bool" where
  "frames_ok h st =
     (heap_ok h \<and> distinct st \<and> (\<forall>f\<in>set st. f < length h \<and> is_collection (h ! f)))"

definition heap_fresh :: "('w, 'io) bridge_command list \<Rightarrow> bool" where
  "heap_fresh h =
     (\<forall>a<length h. \<forall>p\<in>set (command_queue (h ! a)).
        a < p \<and> p < length h \<and> \<not> is_collection (h ! p))"

definition authoring_ok :: "('w, 'io) bridge_commands \<Rightarrow> bool" where
  "authoring_ok bc =
     (heap_fresh (heap bc)
      \<and> m_command_stack bc \<noteq> [] \<and> last (m_command_stack bc) = 0
      \<and> 0 < length (heap bc) \<and> is_collection (heap bc ! 0)
      \<and> (\<forall>f\<in>set (m_command_stack bc).
            f < length (heap bc) \<and> (is_collection (heap bc ! f) \<or> is_repeat (heap bc ! f))))"

function node_cost :: "('w, 'io) bridge_command list \<Rightarrow> addr \<Rightarrow> nat" where
  "node_cost h p =
     (if length h \<le> p then 1
      else case h ! p of
        BridgeCommandRepeat d n q \<Rightarrow>
          3 + sum_list (map (\<lambda>c. if p < c then node_cost h c else 0) q)
      | _ \<Rightarrow> 1)"
  by pat_completeness auto
termination
  by (relation "measure (\<lambda>(h, p). length h - p)") auto

declare node_cost.simps [simp del]

definition frame_cost :: "('w, 'io) bridge_command list \<Rightarrow> addr \<Rightarrow> nat" where
  "frame_cost h f = 1 + sum_list (map (node_cost h) (command_queue (h ! f)))"

definition stack_cost :: "('w, 'io) bridge_command list \<Rightarrow> addr list \<Rightarrow> nat" where
  "stack_cost h st = sum_list (map (frame_cost h) st)"

fun shape :: "('w, 'io) bridge_command \<Rightarrow> addr list option" where
  "shape (BridgeCommandRepeat d n q) = Some q"
| "shape _ = None"

subsection \<open>The layout of an authored store\<close>

text \<open>
  Used only to prove that a run leaves what it has not yet executed as it was
  authored. Authoring allocates in program order, so the objects below a node occupy
  the addresses between the node and its next sibling: \<open>closed h lo hi\<close> says that no
  queue of an object in the address range from \<open>lo\<close> up to \<open>hi\<close> refers to \<open>hi\<close> or
  beyond, and \<open>sealed h st q\<close> that the queue \<open>q\<close> is increasing, that the range
  between two neighbours of \<open>q\<close> is closed, and that no frame of the stack \<open>st\<close> lies
  in such a range.
\<close>

definition closed :: "('w, 'io) bridge_command list \<Rightarrow> addr \<Rightarrow> addr \<Rightarrow> bool" where
  "closed h lo hi =
     (\<forall>x. lo \<le> x \<and> x < hi \<and> x < length h \<longrightarrow> (\<forall>y\<in>set (command_queue (h ! x)). y < hi))"



subsection \<open>The states of a run and what a run has not yet executed\<close>

text \<open>
  \<open>run_state halt bc0 bc\<close>, with \<open>halt\<close> the value of \<^verbatim>\<open>kEventLoopTimerDone\<close>: the orchestrator can be in state \<open>bc\<close> some time after
  it was in \<open>bc0\<close>, through timer events (whatever they return), the event loop
  recording a delay and the lifecycle collaborator changing its registrations. This
  covers a run from its start to its end, across suspensions at wait-exit steps.
\<close>

inductive run_state ::
  "64 word \<Rightarrow> ('w, 'io) bridge_commands \<Rightarrow> ('w, 'io) bridge_commands \<Rightarrow> bool"
  for halt :: "64 word" and bc0 :: "('w, 'io) bridge_commands" where
  start: "run_state halt bc0 bc0"
| event: "run_state halt bc0 bc \<Longrightarrow> timer_event halt bc = Inr (r, bc') \<Longrightarrow> run_state halt bc0 bc'"
| rearm: "run_state halt bc0 bc \<Longrightarrow> run_state halt bc0 (bc\<lparr>timer_delays := ds\<rparr>)"
| signal: "run_state halt bc0 bc \<Longrightarrow> run_state halt bc0 (bc\<lparr>on_exit_callbacks := cbs\<rparr>)"







section \<open>Properties\<close>

subsection \<open>The virtual dispatch, class by class\<close>

lemma execute_Execute:
  "this < length (heap bc) \<Longrightarrow> heap bc ! this = BridgeCommandExecute m_cb
    \<Longrightarrow> execute done bc this = BridgeCommandExecute_execute done m_cb bc"
  by (simp add: execute.simps)

lemma execute_Delay:
  "this < length (heap bc) \<Longrightarrow> heap bc ! this = BridgeCommandDelay d
    \<Longrightarrow> execute done bc this = BridgeCommandDelay_execute d bc"
  by (simp add: execute.simps)

lemma execute_Repeat:
  "this < length (heap bc) \<Longrightarrow> heap bc ! this = BridgeCommandRepeat d n q
    \<Longrightarrow> execute done bc this = BridgeCommandRepeat_execute this d n q bc"
  by (simp add: execute.simps)

lemma execute_WaitExit:
  "this < length (heap bc) \<Longrightarrow> heap bc ! this = BridgeCommandWaitExit io
    \<Longrightarrow> execute done bc this = BridgeCommandWaitExit_execute done io bc"
  by (simp add: execute.simps)

lemma execute_Collection_Nil:
  "this < length (heap bc) \<Longrightarrow> heap bc ! this = BridgeCommandCollection []
    \<Longrightarrow> execute done bc this =
         (case stack_pop bc of Inl e \<Rightarrow> Inl e | Inr bc' \<Rightarrow> Inr (0, bc'))"
  by (simp add: execute.simps)

lemma execute_Collection_Cons:
  "this < length (heap bc) \<Longrightarrow> heap bc ! this = BridgeCommandCollection (command # rest)
    \<Longrightarrow> execute done bc this =
         execute done (bc\<lparr>heap := (heap bc)[this := BridgeCommandCollection rest]\<rparr>) command"
  by (subst execute.simps) simp

lemma stack_pop_Cons:
  "m_command_stack bc = frame # below
    \<Longrightarrow> stack_pop bc = Inr (bc\<lparr>m_command_stack := below\<rparr>)"
  by (simp add: stack_pop_def)

subsection \<open>Single steps\<close>

text \<open>
  Claim C6. One advance of an execute step calls its callback, stores the value the
  callback returned, unchanged, in \<^verbatim>\<open>m_return_value\<close>, and returns 0 (continue at
  once) when that value is not zero and \<^verbatim>\<open>kEventLoopTimerDone\<close> (halt) when it is
  zero. The callback's effect on its world is kept; nothing else changes.
\<close>

theorem execute_step_advance:
  assumes "this < length (heap bc)"
    and "heap bc ! this = BridgeCommandExecute m_cb"
    and "m_cb (world bc) = (rv, w)"
  shows "execute done bc this =
           Inr (if rv \<noteq> 0 then 0 else done, bc\<lparr>m_return_value := rv, world := w\<rparr>)"
  using assms by (simp add: execute_Execute BridgeCommandExecute_execute_def)

theorem execute_step_advance_witness:
  "execute (- 1) (orchestrator [BridgeCommandExecute (named_callback ''A'' 7)] []) 0 =
     Inr (0, (orchestrator [BridgeCommandExecute (named_callback ''A'' 7)] [])
               \<lparr>m_return_value := 7, world := [''A'']\<rparr>)
   \<and> execute (- 1) (orchestrator [BridgeCommandExecute (named_callback ''A'' 0)] []) 0 =
     Inr (- 1, (orchestrator [BridgeCommandExecute (named_callback ''A'' 0)] [])
               \<lparr>m_return_value := 0, world := [''A'']\<rparr>)"
  using execute_step_advance [of 0 "orchestrator [BridgeCommandExecute (named_callback ''A'' 7)] []"
      "named_callback ''A'' 7" 7 "[''A'']" "- 1"]
    execute_step_advance [of 0 "orchestrator [BridgeCommandExecute (named_callback ''A'' 0)] []"
      "named_callback ''A'' 0" 0 "[''A'']" "- 1"]
  by (simp add: orchestrator_def named_callback_def)

text \<open>
  Claim C7. One advance of the collection on top of the stack, which is what the
  scheduler calls: with an empty queue it pops that collection and returns 0;
  otherwise it removes the front of its queue and returns whatever the removed command
  returns, run on the state with the shortened queue. New commands are appended at the
  back of the queue, so commands run in the order in which they were added.
\<close>

theorem collection_advance:
  assumes "m_command_stack bc = this # below"
    and "this < length (heap bc)"
    and "heap bc ! this = BridgeCommandCollection q"
  shows "timer_event done bc = execute done bc this
     \<and> (q = [] \<longrightarrow> execute done bc this = Inr (0, bc\<lparr>m_command_stack := below\<rparr>))
     \<and> (\<forall>command rest. q = command # rest \<longrightarrow>
            execute done bc this =
              execute done (bc\<lparr>heap := (heap bc)[this := BridgeCommandCollection rest]\<rparr>) command)
     \<and> (\<forall>x. add_command x bc =
            Inr (length (heap bc),
                 bc\<lparr>heap := (heap bc @ [x])[this := BridgeCommandCollection (q @ [length (heap bc)])]\<rparr>))"
proof (intro conjI allI impI)
  show "timer_event done bc = execute done bc this"
    using assms(1) by (simp add: timer_event_def)
next
  assume "q = []"
  with assms show "execute done bc this = Inr (0, bc\<lparr>m_command_stack := below\<rparr>)"
    by (simp add: execute_Collection_Nil stack_pop_Cons)
next
  fix command rest
  assume "q = command # rest"
  with assms show "execute done bc this =
      execute done (bc\<lparr>heap := (heap bc)[this := BridgeCommandCollection rest]\<rparr>) command"
    by (simp add: execute_Collection_Cons)
next
  fix x
  show "add_command x bc =
      Inr (length (heap bc),
           bc\<lparr>heap := (heap bc @ [x])[this := BridgeCommandCollection (q @ [length (heap bc)])]\<rparr>)"
    using assms by (simp add: add_command_def Let_def)
qed

theorem collection_advance_witness:
  "timer_event (- 1) (orchestrator [BridgeCommandCollection []] [0]) =
     Inr (0, orchestrator [BridgeCommandCollection []] [])
   \<and> timer_event (- 1)
        (orchestrator [BridgeCommandCollection [1, 2], BridgeCommandDelay 5, BridgeCommandDelay 9] [0]) =
     Inr (5, orchestrator [BridgeCommandCollection [2], BridgeCommandDelay 5, BridgeCommandDelay 9] [0])"
proof -
  let ?e = "orchestrator [BridgeCommandCollection []] [0]"
  let ?f = "orchestrator [BridgeCommandCollection [1, 2], BridgeCommandDelay 5, BridgeCommandDelay 9] [0]"
  have "timer_event (- 1) ?e = Inr (0, ?e\<lparr>m_command_stack := []\<rparr>)"
    using collection_advance [of ?e 0 "[]" "[]" "- 1"] by (simp add: orchestrator_def)
  moreover have "timer_event (- 1) ?f =
      execute (- 1) (?f\<lparr>heap := (heap ?f)[0 := BridgeCommandCollection [2]]\<rparr>) 1"
    using collection_advance [of ?f 0 "[]" "[1, 2]" "- 1"] by (simp add: orchestrator_def)
  ultimately show ?thesis
    by (simp add: orchestrator_def execute_Delay BridgeCommandDelay_execute_def)
qed

text \<open>
  Claim C9. One advance of a wait-exit step registers an on-exit callback on its
  \<^verbatim>\<open>m_ioloop\<close> and returns \<^verbatim>\<open>kEventLoopTimerDone\<close> at once. When the lifecycle
  collaborator then signals the exit, the registration is used up and the callback
  calls \<^verbatim>\<open>queue_next_command\<close> on this orchestrator, which arms the timer again;
  a signal with no registration pending does nothing.
\<close>

theorem wait_exit_advance:
  assumes "this < length (heap bc)"
    and "heap bc ! this = BridgeCommandWaitExit io"
  shows "execute done bc this =
           Inr (done, bc\<lparr>on_exit_callbacks := on_exit_callbacks bc @ [io]\<rparr>)
     \<and> (io \<notin> set (on_exit_callbacks bc) \<longrightarrow>
          ioloop_exit done fuel io (bc\<lparr>on_exit_callbacks := on_exit_callbacks bc @ [io]\<rparr>)
            = queue_next_command done fuel bc
        \<and> ioloop_exit done fuel io bc = Some (Inr bc))"
  using assms
  by (auto simp: execute_WaitExit BridgeCommandWaitExit_execute_def ioloop_exit_def
      remove1_append)

lemma repeat_advance:
  assumes "this < length (heap bc)" and "heap bc ! this = BridgeCommandRepeat d n q"
  shows "execute done bc this =
     (if sint n \<le> 0 then
        (case m_command_stack bc of
           [] \<Rightarrow> Inl UndefinedBehaviour
         | _ # below \<Rightarrow>
             Inr (d, bc\<lparr>heap := (heap bc)[this := BridgeCommandRepeat d (n - 1) q],
                        m_command_stack := below\<rparr>))
      else Inr (d, bc\<lparr>heap := (heap bc)[this := BridgeCommandRepeat d (n - 1) q]
                              @ [BridgeCommandCollection q],
                     m_command_stack := length (heap bc) # m_command_stack bc\<rparr>))"
  using assms
  by (simp add: execute_Repeat BridgeCommandRepeat_execute_def stack_pop_def Let_def
      split: list.splits)

subsection \<open>The scheduler driver\<close>

lemma bridge_loop_run_stops:
  "bridge_loop_run done fuel bc = Some (Inr bc')
    \<Longrightarrow> \<exists>bc0. timer_event done bc0 = Inr (done, bc')"
proof (induction fuel arbitrary: bc)
  case 0
  then show ?case by simp
next
  case (Suc fuel)
  then show ?case
    by (auto split: sum.splits if_splits)
qed

text \<open>
  Claim C8. \<^verbatim>\<open>queue_next_command\<close> arms one timer with delay 0 and runs the loop.
  Each time the timer fires, the callback returns \<^verbatim>\<open>kEventLoopTimerDone\<close> when the
  stack is empty and otherwise what the top frame's \<open>execute\<close> returns. The loop stops
  on \<^verbatim>\<open>kEventLoopTimerDone\<close> and otherwise arms the timer again with the returned
  delay. Hence a run that has stopped has either emptied the stack or stopped at a
  step that itself returned \<^verbatim>\<open>kEventLoopTimerDone\<close>.
\<close>

theorem scheduler_driver:
  "queue_next_command done fuel bc =
      bridge_loop_run done fuel (bc\<lparr>timer_delays := timer_delays bc @ [0]\<rparr>)
   \<and> (m_command_stack bc = [] \<longrightarrow> timer_event done bc = Inr (done, bc))
   \<and> (\<forall>frame below. m_command_stack bc = frame # below \<longrightarrow>
         timer_event done bc = execute done bc frame)
   \<and> (\<forall>r bc'. timer_event done bc = Inr (r, bc') \<longrightarrow>
         bridge_loop_run done (Suc fuel) bc =
           (if r = done then Some (Inr bc')
            else bridge_loop_run done fuel (bc'\<lparr>timer_delays := timer_delays bc' @ [r]\<rparr>)))
   \<and> (\<forall>bc'. bridge_loop_run done fuel bc = Some (Inr bc') \<longrightarrow>
         m_command_stack bc' = []
         \<or> (\<exists>bc0 frame below. m_command_stack bc0 = frame # below
               \<and> execute done bc0 frame = Inr (done, bc')))"
proof (intro conjI allI impI)
  fix bc'
  assume "bridge_loop_run done fuel bc = Some (Inr bc')"
  then obtain bc0 where t: "timer_event done bc0 = Inr (done, bc')"
    using bridge_loop_run_stops by blast
  show "m_command_stack bc' = []
         \<or> (\<exists>bc0 frame below. m_command_stack bc0 = frame # below
               \<and> execute done bc0 frame = Inr (done, bc'))"
  proof (cases "m_command_stack bc0")
    case Nil
    with t show ?thesis by (simp add: timer_event_def)
  next
    case (Cons frame below)
    with t show ?thesis by (auto simp: timer_event_def)
  qed
qed (simp_all add: queue_next_command_def timer_event_def)

subsection \<open>Whole runs\<close>

text \<open>
  Claim C1, evaluated on the code. In the scenario of the specification the run
  invokes A, B, C: the body of the repeat block runs once, not twice. The repeat
  object is removed from the root's queue when it is executed and is never on the
  stack, so it is executed a single time; its one execution pushes one copy of the
  body. The timer is armed with 1000 once and with 500 once.
\<close>

theorem repeat_scenario_invocations:
  "observe (run_script (- 1) 8 repeat_scenario []) =
     Some (Inr (1, [''A'', ''B'', ''C''], [], [0, 0, 1000, 500, 0, 0, 0, 0]))"
  by code_simp

text \<open>
  Claim C10. When the collection on top of the stack dequeues a repeat object whose
  counter is not positive, the repeat's \<^verbatim>\<open>pop\<close> removes that collection, the
  enclosing scope, from the stack (the repeat object itself is a different object and
  was dequeued, not pushed), and the step still returns the repeat's delay. The
  commands queued after the repeat stay in the popped collection, unexecuted. When the
  popped collection was the only frame, the run is over after at most one more timer
  event, which finds the stack empty.
\<close>

theorem nonpositive_repeat_pops_enclosing:
  assumes "m_command_stack bc = frame # below"
    and "frame < length (heap bc)"
    and "heap bc ! frame = BridgeCommandCollection (r # rest)"
    and "r < length (heap bc)"
    and "heap bc ! r = BridgeCommandRepeat d n body"
    and "sint n \<le> 0"
  shows "let bc' = bc\<lparr>heap := (heap bc)[frame := BridgeCommandCollection rest,
                                         r := BridgeCommandRepeat d (n - 1) body],
                       m_command_stack := below\<rparr>
         in timer_event done bc = Inr (d, bc') \<and> r \<noteq> frame
          \<and> (below = [] \<longrightarrow>
               bridge_loop_run done (Suc (Suc fuel)) bc =
                 Some (Inr (if d = done then bc'
                            else bc'\<lparr>timer_delays := timer_delays bc @ [d]\<rparr>)))"
proof -
  let ?bc1 = "bc\<lparr>heap := (heap bc)[frame := BridgeCommandCollection rest]\<rparr>"
  let ?bc' = "bc\<lparr>heap := (heap bc)[frame := BridgeCommandCollection rest,
                                         r := BridgeCommandRepeat d (n - 1) body],
                       m_command_stack := below\<rparr>"
  have ne: "r \<noteq> frame"
    using assms(3,5) by auto
  have "timer_event done bc = execute done ?bc1 r"
    using assms(1-3) by (simp add: timer_event_def execute_Collection_Cons)
  also have "\<dots> = Inr (d, ?bc')"
    using assms ne by (simp add: repeat_advance)
  finally have step: "timer_event done bc = Inr (d, ?bc')" .
  have "bridge_loop_run done (Suc (Suc fuel)) bc =
          Some (Inr (if d = done then ?bc' else ?bc'\<lparr>timer_delays := timer_delays bc @ [d]\<rparr>))"
    if "below = []"
    using step that by (simp add: timer_event_def)
  with step ne show ?thesis
    by (simp add: Let_def)
qed

lemma author_zero_repeat_scenario:
  "author zero_repeat_scenario (BridgeCommands []) =
     Inr (orchestrator
            [BridgeCommandCollection [1, 2, 4], BridgeCommandExecute (named_callback ''A'' 1),
             BridgeCommandRepeat 1000 0 [3], BridgeCommandExecute (named_callback ''B'' 1),
             BridgeCommandExecute (named_callback ''C'' 1)] [0])"
  by (simp add: zero_repeat_scenario_def BridgeCommands_def orchestrator_def add_execute_def
      add_repeat_start_def add_repeat_end_def add_command_def stack_pop_def)

text \<open>
  The first part of claim C3 holds on the code. When the step that the scheduler
  advances is an execute step whose callback returns 0, the timer callback returns
  \<^verbatim>\<open>kEventLoopTimerDone\<close> and the loop returns at once, normally, with every
  frame still on the stack and every later command still queued: nothing after that
  step runs, at any nesting depth. No on-exit registration is added, so the step
  leaves nothing behind that would resume the run.
\<close>

theorem zero_result_halts_run:
  assumes "m_command_stack bc = frame # below"
    and "frame < length (heap bc)"
    and "heap bc ! frame = BridgeCommandCollection (c # rest)"
    and "c < length (heap bc)"
    and "heap bc ! c = BridgeCommandExecute m_cb"
    and "m_cb (world bc) = (0, w)"
  shows "timer_event done bc =
           Inr (done, bc\<lparr>heap := (heap bc)[frame := BridgeCommandCollection rest],
                          m_return_value := 0, world := w\<rparr>)
     \<and> bridge_loop_run done (Suc fuel) bc =
           Some (Inr (bc\<lparr>heap := (heap bc)[frame := BridgeCommandCollection rest],
                          m_return_value := 0, world := w\<rparr>))"
proof -
  let ?bc1 = "bc\<lparr>heap := (heap bc)[frame := BridgeCommandCollection rest]\<rparr>"
  have ne: "c \<noteq> frame"
    using assms(3,5) by auto
  have "timer_event done bc = execute done ?bc1 c"
    using assms(1-3) by (simp add: timer_event_def execute_Collection_Cons)
  also have "\<dots> = Inr (done, ?bc1\<lparr>m_return_value := 0, world := w\<rparr>)"
    using assms ne by (simp add: execute_Execute BridgeCommandExecute_execute_def)
  finally show ?thesis by simp
qed

subsection \<open>The body queue of a repeat object\<close>

lemma execute_keeps_repeat_queue:
  "execute done bc this = Inr (r, bc') \<Longrightarrow> a < length (heap bc)
    \<Longrightarrow> heap bc ! a = BridgeCommandRepeat d n q
    \<Longrightarrow> a < length (heap bc') \<and> (\<exists>n'. heap bc' ! a = BridgeCommandRepeat d n' q)"
proof (induction "done" bc this arbitrary: n rule: execute.induct)
  case (1 dn bc this)
  from "1.prems"(1) have len: "this < length (heap bc)"
    by (subst (asm) execute.simps) (simp split: if_splits)
  show ?case
  proof (cases "heap bc ! this")
    case (BridgeCommandExecute m_cb)
    with "1.prems" len show ?thesis
      by (auto simp: execute_Execute BridgeCommandExecute_execute_def split: prod.splits)
  next
    case (BridgeCommandDelay m_delay)
    with "1.prems" len show ?thesis
      by (auto simp: execute_Delay BridgeCommandDelay_execute_def)
  next
    case (BridgeCommandCollection m_command_queue)
    show ?thesis
    proof (cases m_command_queue)
      case Nil
      with "1.prems" len BridgeCommandCollection show ?thesis
        by (auto simp: execute_Collection_Nil stack_pop_def split: list.splits)
    next
      case (Cons command rest)
      let ?bc1 = "bc\<lparr>heap := (heap bc)[this := BridgeCommandCollection rest]\<rparr>"
      have ne: "a \<noteq> this"
        using "1.prems"(3) BridgeCommandCollection by auto
      have "execute dn ?bc1 command = Inr (r, bc')"
        using "1.prems"(1) len BridgeCommandCollection Cons
        by (simp add: execute_Collection_Cons)
      moreover have "a < length (heap ?bc1)" "heap ?bc1 ! a = BridgeCommandRepeat d n q"
        using "1.prems"(2,3) ne by simp_all
      ultimately show ?thesis
        using "1.IH" [OF _ BridgeCommandCollection Cons] len by (simp add: not_le)
    qed
  next
    case (BridgeCommandRepeat m_delay m_repeat_times m_command_queue)
    with "1.prems" len show ?thesis
      by (cases "a = this")
         (auto simp: repeat_advance nth_append split: if_splits list.splits)
  next
    case (BridgeCommandWaitExit m_ioloop)
    with "1.prems" len show ?thesis
      by (auto simp: execute_WaitExit BridgeCommandWaitExit_execute_def)
  qed
qed

lemma timer_event_keeps_repeat_queue:
  "timer_event done bc = Inr (r, bc') \<Longrightarrow> a < length (heap bc)
    \<Longrightarrow> heap bc ! a = BridgeCommandRepeat d n q
    \<Longrightarrow> a < length (heap bc') \<and> (\<exists>n'. heap bc' ! a = BridgeCommandRepeat d n' q)"
  by (cases "m_command_stack bc") (auto simp: timer_event_def dest: execute_keeps_repeat_queue)

lemma bridge_loop_run_keeps_repeat_queue:
  "bridge_loop_run done fuel bc = Some (Inr bc') \<Longrightarrow> a < length (heap bc)
    \<Longrightarrow> heap bc ! a = BridgeCommandRepeat d n q
    \<Longrightarrow> a < length (heap bc') \<and> (\<exists>n'. heap bc' ! a = BridgeCommandRepeat d n' q)"
proof (induction fuel arbitrary: bc n)
  case 0
  then show ?case by simp
next
  case (Suc fuel)
  from Suc.prems(1) obtain r bc1 where step: "timer_event done bc = Inr (r, bc1)"
    by (auto split: sum.splits)
  from timer_event_keeps_repeat_queue [OF step Suc.prems(2,3)]
  obtain n1 where keep: "a < length (heap bc1)" "heap bc1 ! a = BridgeCommandRepeat d n1 q"
    by blast
  show ?case
  proof (cases "r = done")
    case True
    with Suc.prems(1) step keep show ?thesis by auto
  next
    case False
    with Suc.prems(1) step
    have "bridge_loop_run done fuel (bc1\<lparr>timer_delays := timer_delays bc1 @ [r]\<rparr>) = Some (Inr bc')"
      by simp
    from Suc.IH [OF this] keep show ?thesis by simp
  qed
qed




subsection \<open>Witnesses and evaluations\<close>

theorem nonpositive_repeat_pops_enclosing_witness:
  "bridge_loop_run (- 1) (Suc (Suc 0))
     (orchestrator
        [BridgeCommandCollection [2, 4], BridgeCommandExecute (named_callback ''A'' 1),
         BridgeCommandRepeat 1000 0 [3], BridgeCommandExecute (named_callback ''B'' 1),
         BridgeCommandExecute (named_callback ''C'' 1)] [0]) =
   Some (Inr ((orchestrator
        [BridgeCommandCollection [4], BridgeCommandExecute (named_callback ''A'' 1),
         BridgeCommandRepeat 1000 (- 1) [3], BridgeCommandExecute (named_callback ''B'' 1),
         BridgeCommandExecute (named_callback ''C'' 1)] [])\<lparr>timer_delays := [1000]\<rparr>))
   \<and> observe (run_script (- 1) 5 nested_zero_scenario []) =
       Some (Inr (1, [''C''], [], [0, 0, 0, 0, 0]))"
proof -
  let ?bc = "orchestrator
        [BridgeCommandCollection [2, 4], BridgeCommandExecute (named_callback ''A'' 1),
         BridgeCommandRepeat 1000 0 [3], BridgeCommandExecute (named_callback ''B'' 1),
         BridgeCommandExecute (named_callback ''C'' 1)] [0]"
  have "m_command_stack ?bc = [0]" "0 < length (heap ?bc)"
    "heap ?bc ! 0 = BridgeCommandCollection [2, 4]" "2 < length (heap ?bc)"
    "heap ?bc ! 2 = BridgeCommandRepeat 1000 0 [3]" "sint (0 :: 32 word) \<le> 0"
    by (simp_all add: orchestrator_def)
  from nonpositive_repeat_pops_enclosing [OF this, of "- 1" 0]
  have "bridge_loop_run (- 1) (Suc (Suc 0)) ?bc =
     Some (Inr ((orchestrator
        [BridgeCommandCollection [4], BridgeCommandExecute (named_callback ''A'' 1),
         BridgeCommandRepeat 1000 (- 1) [3], BridgeCommandExecute (named_callback ''B'' 1),
         BridgeCommandExecute (named_callback ''C'' 1)] [])\<lparr>timer_delays := [1000]\<rparr>))"
    by (simp add: Let_def orchestrator_def del: bridge_loop_run.simps)
  moreover have "observe (run_script (- 1) 5 nested_zero_scenario []) =
       Some (Inr (1, [''C''], [], [0, 0, 0, 0, 0]))"
    by code_simp
  ultimately show ?thesis by simp
qed

theorem zero_result_halts_run_witness:
  "bridge_loop_run (- 1) (Suc 0)
     (orchestrator
        [BridgeCommandCollection [1, 2], BridgeCommandExecute (named_callback ''A'' 0),
         BridgeCommandExecute (named_callback ''C'' 1)] [0]) =
   Some (Inr ((orchestrator
        [BridgeCommandCollection [2], BridgeCommandExecute (named_callback ''A'' 0),
         BridgeCommandExecute (named_callback ''C'' 1)] [0])\<lparr>world := [''A'']\<rparr>))
   \<and> observe (run_script (- 1) 1 halt_scenario []) = Some (Inr (0, [''A''], [0], [0]))"
proof -
  let ?bc = "orchestrator
        [BridgeCommandCollection [1, 2], BridgeCommandExecute (named_callback ''A'' 0),
         BridgeCommandExecute (named_callback ''C'' 1)] [0]"
  have "m_command_stack ?bc = [0]" "0 < length (heap ?bc)"
    "heap ?bc ! 0 = BridgeCommandCollection [1, 2]" "1 < length (heap ?bc)"
    "heap ?bc ! 1 = BridgeCommandExecute (named_callback ''A'' 0)"
    "named_callback ''A'' 0 (world ?bc) = (0, [''A''])"
    by (simp_all add: orchestrator_def named_callback_def)
  from zero_result_halts_run [OF this, of "- 1" 0]
  have "bridge_loop_run (- 1) (Suc 0) ?bc =
     Some (Inr ((orchestrator
        [BridgeCommandCollection [2], BridgeCommandExecute (named_callback ''A'' 0),
         BridgeCommandExecute (named_callback ''C'' 1)] [0])\<lparr>world := [''A'']\<rparr>))"
    by (simp add: orchestrator_def del: bridge_loop_run.simps)
  moreover have "observe (run_script (- 1) 1 halt_scenario []) = Some (Inr (0, [''A''], [0], [0]))"
    by code_simp
  ultimately show ?thesis by simp
qed

text \<open>
  Claim C3, evaluated on the code. A zero result is not the only way in which a step
  ends the whole run early: in \<open>zero_repeat_scenario\<close> the only callback that is
  invoked, A, returns 1, and the run is over after three timer events with C never
  invoked. The repeat with count 0 has popped the root collection, so the stack is
  empty, and no on-exit registration is pending: the run is not suspended, it has
  ended.
\<close>

theorem run_ends_early_without_zero_result:
  "observe (run_script (- 1) 3 zero_repeat_scenario []) =
     Some (Inr (1, [''A''], [], [0, 0, 1000]))
   \<and> map_option (map_sum id (\<lambda>(rv, bc). on_exit_callbacks bc))
       (run_script (- 1) 3 zero_repeat_scenario []) = Some (Inr [])"
  by code_simp

text \<open>
  Claim C4, evaluated on the code. Authoring \<open>zero_repeat_scenario\<close> leaves the root
  collection (address 0) as the only frame, with A, the repeat with counter 0
  (address 2) and C in its queue. The first timer event runs A. The second advances
  the repeat: it pops the root collection, not the repeat, which was never on the
  stack; C stays queued in the popped root and the stack is empty. The counter is
  decremented and the returned value is the repeat's delay.
\<close>

theorem zero_repeat_pops_root:
  "author zero_repeat_scenario (BridgeCommands []) =
     Inr (orchestrator
            [BridgeCommandCollection [1, 2, 4], BridgeCommandExecute (named_callback ''A'' 1),
             BridgeCommandRepeat 1000 0 [3], BridgeCommandExecute (named_callback ''B'' 1),
             BridgeCommandExecute (named_callback ''C'' 1)] [0])
   \<and> timer_event (- 1)
       (orchestrator
            [BridgeCommandCollection [1, 2, 4], BridgeCommandExecute (named_callback ''A'' 1),
             BridgeCommandRepeat 1000 0 [3], BridgeCommandExecute (named_callback ''B'' 1),
             BridgeCommandExecute (named_callback ''C'' 1)] [0]) =
     Inr (0, (orchestrator
            [BridgeCommandCollection [2, 4], BridgeCommandExecute (named_callback ''A'' 1),
             BridgeCommandRepeat 1000 0 [3], BridgeCommandExecute (named_callback ''B'' 1),
             BridgeCommandExecute (named_callback ''C'' 1)] [0])
              \<lparr>m_return_value := 1, world := [''A'']\<rparr>)
   \<and> timer_event (- 1)
       ((orchestrator
            [BridgeCommandCollection [2, 4], BridgeCommandExecute (named_callback ''A'' 1),
             BridgeCommandRepeat 1000 0 [3], BridgeCommandExecute (named_callback ''B'' 1),
             BridgeCommandExecute (named_callback ''C'' 1)] [0])
              \<lparr>m_return_value := 1, world := [''A'']\<rparr>) =
     Inr (1000, (orchestrator
            [BridgeCommandCollection [4], BridgeCommandExecute (named_callback ''A'' 1),
             BridgeCommandRepeat 1000 (- 1) [3], BridgeCommandExecute (named_callback ''B'' 1),
             BridgeCommandExecute (named_callback ''C'' 1)] [])
              \<lparr>m_return_value := 1, world := [''A'']\<rparr>)"
proof (intro conjI)
  show "author zero_repeat_scenario (BridgeCommands []) =
     Inr (orchestrator
            [BridgeCommandCollection [1, 2, 4], BridgeCommandExecute (named_callback ''A'' 1),
             BridgeCommandRepeat 1000 0 [3], BridgeCommandExecute (named_callback ''B'' 1),
             BridgeCommandExecute (named_callback ''C'' 1)] [0])"
    by (rule author_zero_repeat_scenario)
qed (simp_all add: timer_event_def orchestrator_def execute_Collection_Cons repeat_advance
      execute_Execute BridgeCommandExecute_execute_def named_callback_def)

theorem scheduler_driver_witness:
  "queue_next_command (- 1) (Suc (Suc (Suc 0)))
     (orchestrator [BridgeCommandCollection [1], BridgeCommandDelay 5] [0]) =
   Some (Inr ((orchestrator [BridgeCommandCollection [], BridgeCommandDelay 5] [])
                \<lparr>timer_delays := [0, 5, 0]\<rparr>))"
proof -
  let ?bc0 = "orchestrator [BridgeCommandCollection [1], BridgeCommandDelay 5] [0]"
  let ?bc1 = "?bc0\<lparr>timer_delays := [0]\<rparr>"
  let ?bc2 = "(orchestrator [BridgeCommandCollection [], BridgeCommandDelay 5] [0])\<lparr>timer_delays := [0]\<rparr>"
  let ?bc3 = "(orchestrator [BridgeCommandCollection [], BridgeCommandDelay 5] [0])\<lparr>timer_delays := [0, 5]\<rparr>"
  let ?bc4 = "(orchestrator [BridgeCommandCollection [], BridgeCommandDelay 5] [])\<lparr>timer_delays := [0, 5]\<rparr>"
  let ?bc5 = "(orchestrator [BridgeCommandCollection [], BridgeCommandDelay 5] [])\<lparr>timer_delays := [0, 5, 0]\<rparr>"
  have t1: "timer_event (- 1) ?bc1 = Inr (5, ?bc2)"
    by (simp add: timer_event_def orchestrator_def execute_Collection_Cons execute_Delay
        BridgeCommandDelay_execute_def)
  have t3: "timer_event (- 1) ?bc3 = Inr (0, ?bc4)"
    by (simp add: timer_event_def orchestrator_def execute_Collection_Nil stack_pop_def)
  have t5: "timer_event (- 1) ?bc5 = Inr (- 1, ?bc5)"
    using scheduler_driver [of "- 1" 0 ?bc5] by (simp add: orchestrator_def)
  have "queue_next_command (- 1) (Suc (Suc (Suc 0))) ?bc0 =
          bridge_loop_run (- 1) (Suc (Suc (Suc 0))) ?bc1"
    using scheduler_driver [of "- 1" "Suc (Suc (Suc 0))" ?bc0] by (simp add: orchestrator_def del: bridge_loop_run.simps)
  also have "\<dots> = bridge_loop_run (- 1) (Suc (Suc 0)) ?bc3"
    using scheduler_driver [of "- 1" "Suc (Suc 0)" ?bc1] t1 by (simp add: orchestrator_def del: bridge_loop_run.simps)
  also have "\<dots> = bridge_loop_run (- 1) (Suc 0) ?bc5"
    using scheduler_driver [of "- 1" "Suc 0" ?bc3] t3 by (simp add: orchestrator_def del: bridge_loop_run.simps)
  also have "\<dots> = Some (Inr ?bc5)"
    using scheduler_driver [of "- 1" 0 ?bc5] t5 by (simp add: orchestrator_def del: bridge_loop_run.simps)
  finally show ?thesis .
qed

theorem wait_exit_advance_witness:
  "execute (- 1) (orchestrator [BridgeCommandCollection [], BridgeCommandWaitExit 3] []) 1 =
     Inr (- 1, (orchestrator [BridgeCommandCollection [], BridgeCommandWaitExit 3] [])
                 \<lparr>on_exit_callbacks := [3]\<rparr>)
   \<and> ioloop_exit (- 1) (Suc 0) 3
        ((orchestrator [BridgeCommandCollection [], BridgeCommandWaitExit 3] [])
           \<lparr>on_exit_callbacks := [3]\<rparr>) =
     Some (Inr ((orchestrator [BridgeCommandCollection [], BridgeCommandWaitExit 3] [])
                  \<lparr>timer_delays := [0]\<rparr>))
   \<and> ioloop_exit (- 1) (Suc 0) 3 (orchestrator [BridgeCommandCollection [], BridgeCommandWaitExit 3] []) =
     Some (Inr (orchestrator [BridgeCommandCollection [], BridgeCommandWaitExit 3] []))"
proof -
  let ?bc = "orchestrator [BridgeCommandCollection [], BridgeCommandWaitExit 3] []"
  have h: "1 < length (heap ?bc)" "heap ?bc ! 1 = BridgeCommandWaitExit 3"
    by (simp_all add: orchestrator_def)
  have "queue_next_command (- 1) (Suc 0) ?bc = Some (Inr (?bc\<lparr>timer_delays := [0]\<rparr>))"
    by (simp add: queue_next_command_def timer_event_def orchestrator_def)
  with wait_exit_advance [OF h, of "- 1" "Suc 0"] show ?thesis
    by (simp add: orchestrator_def)
qed

subsection \<open>Runs of authored programs return\<close>

lemma node_cost_cong:
  assumes "length h \<le> length h'"
    and "\<forall>a<length h. shape (h' ! a) = shape (h ! a)"
    and "\<forall>a. length h \<le> a \<longrightarrow> a < length h' \<longrightarrow> shape (h' ! a) = None"
  shows "node_cost h' p = node_cost h p"
  using assms
proof (induction h p rule: node_cost.induct)
  case (1 h p)
  show ?case
  proof (cases "length h \<le> p")
    case True
    then have "node_cost h p = 1" by (simp add: node_cost.simps)
    moreover have "node_cost h' p = 1"
    proof (cases "length h' \<le> p")
      case True
      then show ?thesis by (simp add: node_cost.simps)
    next
      case False
      with True "1.prems"(3) have "shape (h' ! p) = None" by simp
      with False show ?thesis
        by (cases "h' ! p") (simp_all add: node_cost.simps)
    qed
    ultimately show ?thesis by simp
  next
    case False
    then have lt: "p < length h" "p < length h'" using "1.prems"(1) by simp_all
    have sh: "shape (h' ! p) = shape (h ! p)" using "1.prems"(2) lt by simp
    show ?thesis
    proof (cases "h ! p")
      case (BridgeCommandRepeat d n q)
      with sh obtain d' n' where h': "h' ! p = BridgeCommandRepeat d' n' q"
        by (cases "h' ! p") auto
      have "sum_list (map (\<lambda>c. if p < c then node_cost h' c else 0) q)
              = sum_list (map (\<lambda>c. if p < c then node_cost h c else 0) q)"
      proof (rule arg_cong [where f = sum_list], rule map_cong [OF refl])
        fix c
        assume "c \<in> set q"
        from "1.IH" [OF False BridgeCommandRepeat this] "1.prems"
        show "(if p < c then node_cost h' c else 0) = (if p < c then node_cost h c else 0)"
          by auto
      qed
      with lt BridgeCommandRepeat h' show ?thesis
        by (simp add: node_cost.simps [of h p] node_cost.simps [of h' p])
    qed (use sh lt in \<open>cases "h' ! p"; simp add: node_cost.simps [of h p] node_cost.simps [of h' p]\<close>)+
  qed
qed


lemma node_cost_update:
  assumes "a < length h" and "shape y = shape (h ! a)"
  shows "node_cost (h[a := y]) p = node_cost h p"
  using assms by (intro node_cost_cong) (auto simp: nth_list_update)

lemma node_cost_append_collection:
  "node_cost (h @ [BridgeCommandCollection q]) p = node_cost h p"
  by (intro node_cost_cong) (auto simp: nth_append)

lemma heap_ok_queue:
  "heap_ok h \<Longrightarrow> a < length h \<Longrightarrow> p \<in> set (command_queue (h ! a))
    \<Longrightarrow> p < length h \<and> \<not> is_collection (h ! p) \<and> (is_repeat (h ! a) \<longrightarrow> a < p)"
  unfolding heap_ok_def by blast

lemma heap_ok_update:
  assumes "heap_ok h" and "a < length h"
    and "set (command_queue y) \<subseteq> set (command_queue (h ! a))"
    and "is_collection y = is_collection (h ! a)"
    and "is_repeat y = is_repeat (h ! a)"
  shows "heap_ok (h[a := y])"
  unfolding heap_ok_def
proof (intro allI impI ballI)
  fix b p
  assume b: "b < length (h[a := y])" and p: "p \<in> set (command_queue (h[a := y] ! b))"
  have "p \<in> set (command_queue (h ! b))"
    using assms(2,3) b p by (cases "b = a") auto
  moreover have "b < length h" using b by simp
  ultimately have old: "p < length h" "\<not> is_collection (h ! p)" "is_repeat (h ! b) \<longrightarrow> b < p"
    using heap_ok_queue [OF assms(1), of b p] by simp_all
  have "is_collection (h[a := y] ! p) = is_collection (h ! p)"
    using assms(2,4) old(1) by (cases "p = a") auto
  moreover have "is_repeat (h[a := y] ! b) = is_repeat (h ! b)"
    using assms(2,5) b by (cases "b = a") auto
  ultimately show "p < length (h[a := y]) \<and> \<not> is_collection (h[a := y] ! p)
      \<and> (is_repeat (h[a := y] ! b) \<longrightarrow> b < p)"
    using old by simp
qed

lemma heap_ok_append_collection:
  assumes "heap_ok h" and "\<forall>p\<in>set q. p < length h \<and> \<not> is_collection (h ! p)"
  shows "heap_ok (h @ [BridgeCommandCollection q])"
  unfolding heap_ok_def
proof (intro allI impI ballI)
  fix b p
  let ?h = "h @ [BridgeCommandCollection q]"
  assume b: "b < length ?h" and p: "p \<in> set (command_queue (?h ! b))"
  show "p < length ?h \<and> \<not> is_collection (?h ! p) \<and> (is_repeat (?h ! b) \<longrightarrow> b < p)"
  proof (cases "b < length h")
    case True
    with p have "p \<in> set (command_queue (h ! b))" by (simp add: nth_append)
    from heap_ok_queue [OF assms(1) True this] True show ?thesis by (simp add: nth_append)
  next
    case False
    with b have "b = length h" by simp
    with p assms(2) show ?thesis by (auto simp: nth_append)
  qed
qed

lemma sum_list_frame_cost_cong:
  "(\<And>g. g \<in> set st \<Longrightarrow> frame_cost h' g = frame_cost h g)
    \<Longrightarrow> sum_list (map (frame_cost h') st) = sum_list (map (frame_cost h) st)"
  by (rule arg_cong [where f = sum_list], rule map_cong) simp_all

lemma frame_cost_cong:
  "(\<And>p. node_cost h' p = node_cost h p) \<Longrightarrow> command_queue (h' ! g) = command_queue (h ! g)
    \<Longrightarrow> frame_cost h' g = frame_cost h g"
proof -
  assume "\<And>p. node_cost h' p = node_cost h p"
  then have "node_cost h' = node_cost h" by (intro ext)
  moreover assume "command_queue (h' ! g) = command_queue (h ! g)"
  ultimately show ?thesis by (simp add: frame_cost_def)
qed

lemma node_cost_repeat:
  assumes "heap_ok h" and "c < length h" and "h ! c = BridgeCommandRepeat d n q"
  shows "node_cost h c = 3 + sum_list (map (node_cost h) q)"
proof -
  have "sum_list (map (\<lambda>p. if c < p then node_cost h p else 0) q)
          = sum_list (map (node_cost h) q)"
  proof (rule arg_cong [where f = sum_list], rule map_cong [OF refl])
    fix p
    assume "p \<in> set q"
    with heap_ok_queue [OF assms(1,2), of p] assms(3)
    show "(if c < p then node_cost h p else 0) = node_cost h p"
      by simp
  qed
  with assms(2,3) show ?thesis
    by (simp add: node_cost.simps [of h c])
qed

lemma node_cost_pos: "0 < node_cost h p"
  by (cases "length h \<le> p"; cases "h ! p") (simp_all add: node_cost.simps [of h p])


lemma stack_cost_cong:
  assumes "\<And>p. node_cost h' p = node_cost h p"
    and "\<And>g. g \<in> set st \<Longrightarrow> command_queue (h' ! g) = command_queue (h ! g)"
  shows "stack_cost h' st = stack_cost h st"
  unfolding stack_cost_def
  by (rule sum_list_frame_cost_cong, rule frame_cost_cong) (simp_all add: assms)

lemma frames_okD:
  assumes "frames_ok h (f # below)"
  shows "heap_ok h" and "f \<notin> set below" and "distinct below" and "f < length h"
    and "is_collection (h ! f)"
    and "\<And>g. g \<in> set below \<Longrightarrow> g < length h \<and> is_collection (h ! g) \<and> g \<noteq> f"
  using assms unfolding frames_ok_def by auto

lemma frames_ok_pop: "frames_ok h (f # below) \<Longrightarrow> frames_ok h below"
  unfolding frames_ok_def by simp

lemma stack_cost_Cons: "stack_cost h (f # below) = frame_cost h f + stack_cost h below"
  by (simp add: stack_cost_def)

lemma frame_cost_pos: "0 < frame_cost h f"
  by (simp add: frame_cost_def)

lemma dequeue_progress:
  assumes ok: "frames_ok h (f # below)" and hf: "h ! f = BridgeCommandCollection (c # rest)"
  defines "h1 \<equiv> h[f := BridgeCommandCollection rest]"
  shows "frames_ok h1 (f # below)"
    and "stack_cost h1 (f # below) + node_cost h c = stack_cost h (f # below)"
    and "node_cost h1 p = node_cost h p"
    and "c < length h" and "c \<noteq> f" and "\<not> is_collection (h ! c)" and "h1 ! c = h ! c"
proof -
  note d = frames_okD [OF ok]
  have c: "c < length h \<and> \<not> is_collection (h ! c)"
    using heap_ok_queue [OF d(1,4), of c] hf by simp
  then show "c < length h" "\<not> is_collection (h ! c)" by simp_all
  show cf: "c \<noteq> f" using c d(5) by auto
  then show "h1 ! c = h ! c" by (simp add: h1_def)
  show nc: "node_cost h1 p = node_cost h p" for p
    unfolding h1_def using d(4) hf by (intro node_cost_update) simp_all
  have hok: "heap_ok h1"
    unfolding h1_def using d(1,4) hf by (intro heap_ok_update) auto
  have same: "h1 ! g = h ! g" if "g \<in> set below" for g
    using d(6) [OF that] by (simp add: h1_def)
  show "frames_ok h1 (f # below)"
    unfolding frames_ok_def using hok d same by (auto simp: h1_def)
  have "stack_cost h1 below = stack_cost h below"
    by (rule stack_cost_cong) (simp_all add: nc same)
  moreover have "frame_cost h1 f + node_cost h c = frame_cost h f"
  proof -
    have "node_cost h1 = node_cost h" by (rule ext) (rule nc)
    then show ?thesis using d(4) hf by (simp add: frame_cost_def h1_def)
  qed
  ultimately show "stack_cost h1 (f # below) + node_cost h c = stack_cost h (f # below)"
    by (simp add: stack_cost_Cons)
qed

lemma repeat_progress:
  fixes n' :: "32 word"
  assumes ok: "frames_ok h (f # below)" and cl: "c < length h"
    and hc: "h ! c = BridgeCommandRepeat d n body"
  defines "h2 \<equiv> h[c := BridgeCommandRepeat d n' body]"
  shows "frames_ok h2 below"
    and "stack_cost h2 below < stack_cost h (f # below)"
    and "frames_ok (h2 @ [BridgeCommandCollection body]) (length h # f # below)"
    and "stack_cost (h2 @ [BridgeCommandCollection body]) (length h # f # below) + 2
           = stack_cost h (f # below) + node_cost h c"
proof -
  note d = frames_okD [OF ok]
  let ?h' = "h2 @ [BridgeCommandCollection body]"
  have len: "length h2 = length h" by (simp add: h2_def)
  have nc2: "node_cost h2 p = node_cost h p" for p
    unfolding h2_def using cl hc by (intro node_cost_update) simp_all
  have nc': "node_cost ?h' p = node_cost h p" for p
    by (simp add: node_cost_append_collection nc2)
  have hok2: "heap_ok h2"
    unfolding h2_def using d(1) cl hc by (intro heap_ok_update) auto
  have cf: "c \<noteq> f" using d(5) hc by auto
  have same: "h2 ! g = h ! g" if "g \<in> set (f # below)" for g
  proof -
    have "is_collection (h ! g)" using that d(5,6) by auto
    with hc have "g \<noteq> c" by auto
    then show ?thesis by (simp add: h2_def)
  qed
  have same': "?h' ! g = h ! g" if "g \<in> set (f # below)" for g
  proof -
    have "g < length h" using that d(4,6) by auto
    with same [OF that] len show ?thesis by (simp add: nth_append)
  qed
  have ok2: "frames_ok h2 (f # below)"
    unfolding frames_ok_def using hok2 d same len by auto
  then show "frames_ok h2 below" by (rule frames_ok_pop)
  have c2: "stack_cost h2 (f # below) = stack_cost h (f # below)"
    by (rule stack_cost_cong) (simp_all only: nc2 same)
  have "stack_cost h2 below < stack_cost h2 (f # below)"
    using frame_cost_pos [of h2 f] by (simp add: stack_cost_Cons)
  with c2 show "stack_cost h2 below < stack_cost h (f # below)" by simp
  have body: "p < length h2 \<and> \<not> is_collection (h2 ! p)" if "p \<in> set body" for p
  proof -
    have "h2 ! c = BridgeCommandRepeat d n' body" using cl by (simp add: h2_def)
    with heap_ok_queue [OF hok2, of c p] cl len that show ?thesis by simp
  qed
  have hok': "heap_ok ?h'"
    using hok2 body by (intro heap_ok_append_collection) simp_all
  have fresh: "length h \<notin> set (f # below)"
    using d(4,6) by auto
  show "frames_ok ?h' (length h # f # below)"
    unfolding frames_ok_def
  proof (intro conjI ballI)
    show "heap_ok ?h'" by (rule hok')
    show "distinct (length h # f # below)" using fresh d(2,3) by simp
  next
    fix g
    assume g: "g \<in> set (length h # f # below)"
    have "g \<le> length h" using g d(4) d(6) [of g] by auto
    then show "g < length ?h'" using len by simp
    show "is_collection (?h' ! g)"
    proof (cases "g = length h")
      case True
      then show ?thesis using len by (simp add: nth_append)
    next
      case False
      with g have "g \<in> set (f # below)" by simp
      from same' [OF this] this d(5,6) show ?thesis by auto
    qed
  qed
  have "stack_cost ?h' (f # below) = stack_cost h (f # below)"
    by (rule stack_cost_cong) (simp_all only: nc' same')
  moreover have "frame_cost ?h' (length h) = 1 + sum_list (map (node_cost h) body)"
  proof -
    have "node_cost ?h' = node_cost h" by (rule ext) (rule nc')
    then show ?thesis using len by (simp add: frame_cost_def nth_append)
  qed
  moreover have "node_cost h c = 3 + sum_list (map (node_cost h) body)"
    by (rule node_cost_repeat [OF d(1) cl hc])
  ultimately show "stack_cost ?h' (length h # f # below) + 2
           = stack_cost h (f # below) + node_cost h c"
    by (simp add: stack_cost_Cons [of _ "length h"])
qed


lemma timer_event_progress:
  assumes ok: "frames_ok (heap bc) (m_command_stack bc)"
    and st: "m_command_stack bc = f # below"
  shows "\<exists>r bc'. timer_event done bc = Inr (r, bc')
           \<and> frames_ok (heap bc') (m_command_stack bc')
           \<and> stack_cost (heap bc') (m_command_stack bc')
                < stack_cost (heap bc) (m_command_stack bc)"
proof -
  let ?h = "heap bc"
  have ok': "frames_ok ?h (f # below)" using ok st by simp
  note d = frames_okD [OF ok']
  obtain q where hf: "?h ! f = BridgeCommandCollection q"
    using d(5) by (cases "?h ! f") auto
  show ?thesis
  proof (cases q)
    case Nil
    have "timer_event done bc = Inr (0, bc\<lparr>m_command_stack := below\<rparr>)"
      using st d(4) hf Nil by (simp add: timer_event_def execute_Collection_Nil stack_pop_Cons)
    moreover have "frames_ok ?h below" by (rule frames_ok_pop [OF ok'])
    moreover have "stack_cost ?h below < stack_cost ?h (f # below)"
      using frame_cost_pos [of ?h f] by (simp add: stack_cost_Cons)
    ultimately show ?thesis using st by simp
  next
    case (Cons c rest)
    let ?h1 = "?h[f := BridgeCommandCollection rest]"
    let ?bc1 = "bc\<lparr>heap := ?h1\<rparr>"
    have hf': "?h ! f = BridgeCommandCollection (c # rest)" using hf Cons by simp
    note dq = dequeue_progress [OF ok' hf']
    have te: "timer_event done bc = execute done ?bc1 c"
      using st d(4) hf' by (simp add: timer_event_def execute_Collection_Cons)
    have c1: "c < length (heap ?bc1)" "heap ?bc1 ! c = ?h ! c"
      using dq(4,7) by simp_all
    have less1: "stack_cost ?h1 (f # below) < stack_cost ?h (f # below)"
      using dq(2) node_cost_pos [of ?h c] by simp
    have leaf: ?thesis
      if "execute done ?bc1 c = Inr (r, bc')" "heap bc' = ?h1" "m_command_stack bc' = f # below"
      for r bc'
      using that te dq(1) less1 st by simp
    show ?thesis
    proof (cases "?h ! c")
      case (BridgeCommandExecute m_cb)
      obtain rv w where "m_cb (world bc) = (rv, w)" by fastforce
      with c1 BridgeCommandExecute st show ?thesis
        by (intro leaf [of "if rv \<noteq> 0 then 0 else done"
              "?bc1\<lparr>m_return_value := rv, world := w\<rparr>"])
           (simp_all add: execute_Execute BridgeCommandExecute_execute_def)
    next
      case (BridgeCommandDelay m_delay)
      with c1 st show ?thesis
        by (intro leaf [of m_delay ?bc1])
           (simp_all add: execute_Delay BridgeCommandDelay_execute_def)
    next
      case (BridgeCommandCollection m_command_queue)
      with dq(6) show ?thesis by simp
    next
      case (BridgeCommandWaitExit m_ioloop)
      with c1 st show ?thesis
        by (intro leaf [of "done"
              "?bc1\<lparr>on_exit_callbacks := on_exit_callbacks bc @ [m_ioloop]\<rparr>"])
           (simp_all add: execute_WaitExit BridgeCommandWaitExit_execute_def)
    next
      case (BridgeCommandRepeat m_delay m_repeat_times body)
      let ?h2 = "?h1[c := BridgeCommandRepeat m_delay (m_repeat_times - 1) body]"
      have hc1: "?h1 ! c = BridgeCommandRepeat m_delay m_repeat_times body"
        using dq(7) BridgeCommandRepeat by simp
      have cl1: "c < length ?h1" using dq(4) by simp
      note rp = repeat_progress [OF dq(1) cl1 hc1, of "m_repeat_times - 1"]
      show ?thesis
      proof (cases "sint m_repeat_times \<le> 0")
        case True
        have "execute done ?bc1 c = Inr (m_delay, ?bc1\<lparr>heap := ?h2, m_command_stack := below\<rparr>)"
          using c1 BridgeCommandRepeat True st by (simp add: repeat_advance)
        moreover have "stack_cost ?h2 below < stack_cost ?h (f # below)"
          using rp(2) less1 by simp
        ultimately show ?thesis using te rp(1) st by simp
      next
        case False
        let ?h' = "?h2 @ [BridgeCommandCollection body]"
        have "execute done ?bc1 c =
            Inr (m_delay, ?bc1\<lparr>heap := ?h', m_command_stack := length ?h # f # below\<rparr>)"
          using c1 BridgeCommandRepeat False st by (simp add: repeat_advance)
        moreover have "stack_cost ?h' (length ?h # f # below) < stack_cost ?h (f # below)"
          using rp(4) dq(2) dq(3) [of c] by simp
        moreover have "frames_ok ?h' (length ?h # f # below)"
          using rp(3) by simp
        ultimately show ?thesis using te st by simp
      qed
    qed
  qed
qed

lemma bridge_loop_run_terminates:
  "frames_ok (heap bc) (m_command_stack bc)
    \<Longrightarrow> \<exists>fuel bc'. bridge_loop_run done fuel bc = Some (Inr bc')"
proof (induction "stack_cost (heap bc) (m_command_stack bc)" arbitrary: bc rule: less_induct)
  case less
  show ?case
  proof (cases "m_command_stack bc")
    case Nil
    then have "bridge_loop_run done (Suc 0) bc = Some (Inr bc)"
      by (simp add: timer_event_def)
    then show ?thesis by blast
  next
    case (Cons f below)
    from timer_event_progress [OF less.prems Cons, of "done"]
    obtain r bc1 where step: "timer_event done bc = Inr (r, bc1)"
      and ok1: "frames_ok (heap bc1) (m_command_stack bc1)"
      and lt: "stack_cost (heap bc1) (m_command_stack bc1)
                 < stack_cost (heap bc) (m_command_stack bc)"
      by blast
    show ?thesis
    proof (cases "r = done")
      case True
      with step have "bridge_loop_run done (Suc 0) bc = Some (Inr bc1)" by simp
      then show ?thesis by blast
    next
      case False
      let ?bc2 = "bc1\<lparr>timer_delays := timer_delays bc1 @ [r]\<rparr>"
      have "\<exists>fuel bc'. bridge_loop_run done fuel ?bc2 = Some (Inr bc')"
        using less.hyps [of ?bc2] ok1 lt by simp
      then obtain fuel bc' where "bridge_loop_run done fuel ?bc2 = Some (Inr bc')" by blast
      with step False have "bridge_loop_run done (Suc fuel) bc = Some (Inr bc')" by simp
      then show ?thesis by blast
    qed
  qed
qed


lemma heap_fresh_queue:
  "heap_fresh h \<Longrightarrow> a < length h \<Longrightarrow> p \<in> set (command_queue (h ! a))
    \<Longrightarrow> a < p \<and> p < length h \<and> \<not> is_collection (h ! p)"
  unfolding heap_fresh_def by blast

lemma heap_fresh_heap_ok: "heap_fresh h \<Longrightarrow> heap_ok h"
  unfolding heap_fresh_def heap_ok_def by blast

lemma heap_fresh_add:
  assumes fresh: "heap_fresh h" and fl: "f < length h"
    and k: "command_queue k = command_queue (h ! f) @ [length h]"
      "is_collection k = is_collection (h ! f)"
    and x: "\<not> is_collection x" "command_queue x = []"
  shows "heap_fresh ((h @ [x])[f := k])"
  unfolding heap_fresh_def
proof (intro allI impI ballI)
  let ?h = "(h @ [x])[f := k]"
  fix b p
  assume b: "b < length ?h" and p: "p \<in> set (command_queue (?h ! b))"
  have new: "?h ! length h = x" using fl by (simp add: nth_append)
  have old: "?h ! a = h ! a" if "a < length h" "a \<noteq> f" for a
    using that by (simp add: nth_append)
  have at_f: "?h ! f = k" using fl by simp
  have coll: "is_collection (?h ! a) = is_collection (h ! a)" if "a < length h" for a
    using that k(2) old [of a] at_f by (cases "a = f") simp_all
  consider "b = length h" | "b = f" | "b < length h" "b \<noteq> f"
    using b by (cases "b = length h") auto
  then show "b < p \<and> p < length ?h \<and> \<not> is_collection (?h ! p)"
  proof cases
    case 1
    with p new x(2) show ?thesis by simp
  next
    case 2
    with p at_f k(1) have "p \<in> set (command_queue (h ! f)) \<or> p = length h" by auto
    then show ?thesis
    proof
      assume "p \<in> set (command_queue (h ! f))"
      from heap_fresh_queue [OF fresh fl this] coll [of p] 2 show ?thesis by simp
    next
      assume "p = length h"
      with new x(1) fl 2 show ?thesis by simp
    qed
  next
    case 3
    with p old [of b] have "p \<in> set (command_queue (h ! b))" by simp
    from heap_fresh_queue [OF fresh 3(1) this] coll [of p] show ?thesis by simp
  qed
qed

lemma add_command_ok:
  assumes ok: "authoring_ok bc" and x: "\<not> is_collection x" "command_queue x = []"
  shows "\<exists>bc'. add_command x bc = Inr (length (heap bc), bc')
           \<and> authoring_ok bc' \<and> m_command_stack bc' = m_command_stack bc
           \<and> length (heap bc') = Suc (length (heap bc))
           \<and> heap bc' ! length (heap bc) = x"
proof -
  let ?h = "heap bc"
  from ok obtain f below where st: "m_command_stack bc = f # below"
    unfolding authoring_ok_def by (cases "m_command_stack bc") auto
  from ok st have fl: "f < length ?h" and kind: "is_collection (?h ! f) \<or> is_repeat (?h ! f)"
    and fresh: "heap_fresh ?h" and root: "0 < length ?h" "is_collection (?h ! 0)"
    and frames: "\<And>g. g \<in> set (f # below) \<Longrightarrow>
         g < length ?h \<and> (is_collection (?h ! g) \<or> is_repeat (?h ! g))"
    and lst: "last (f # below) = 0"
    unfolding authoring_ok_def by auto
  have goal: ?thesis
    if add: "add_command x bc = Inr (length ?h, bc\<lparr>heap := (?h @ [x])[f := k]\<rparr>)"
      and k: "command_queue k = command_queue (?h ! f) @ [length ?h]"
        "is_collection k = is_collection (?h ! f)" "is_repeat k = is_repeat (?h ! f)"
    for k
  proof -
    let ?h' = "(?h @ [x])[f := k]"
    have fresh': "heap_fresh ?h'"
      by (rule heap_fresh_add [OF fresh fl k(1,2) x])
    have kinds: "is_collection (?h' ! g) = is_collection (?h ! g)"
      "is_repeat (?h' ! g) = is_repeat (?h ! g)" if "g < length ?h" for g
      using that k(2,3) fl by (cases "g = f"; simp add: nth_append)+
    have fr': "g < length ?h' \<and> (is_collection (?h' ! g) \<or> is_repeat (?h' ! g))"
      if "g \<in> set (m_command_stack bc)" for g
    proof -
      from that st have "g \<in> set (f # below)" by simp
      from frames [OF this] kinds [of g] show ?thesis by simp
    qed
    have "authoring_ok (bc\<lparr>heap := ?h'\<rparr>)"
      unfolding authoring_ok_def
    proof (intro conjI ballI)
      show "heap_fresh (heap (bc\<lparr>heap := ?h'\<rparr>))" using fresh' by simp
      show "m_command_stack (bc\<lparr>heap := ?h'\<rparr>) \<noteq> []" using st by simp
      show "last (m_command_stack (bc\<lparr>heap := ?h'\<rparr>)) = 0" using st lst by simp
      show "0 < length (heap (bc\<lparr>heap := ?h'\<rparr>))" by simp
      show "is_collection (heap (bc\<lparr>heap := ?h'\<rparr>) ! 0)" using kinds(1) [of 0] root by simp
    next
      fix g
      assume "g \<in> set (m_command_stack (bc\<lparr>heap := ?h'\<rparr>))"
      then have "g \<in> set (m_command_stack bc)" by simp
      from fr' [OF this]
      show "g < length (heap (bc\<lparr>heap := ?h'\<rparr>))"
        and "is_collection (heap (bc\<lparr>heap := ?h'\<rparr>) ! g)
              \<or> is_repeat (heap (bc\<lparr>heap := ?h'\<rparr>) ! g)"
        by simp_all
    qed
    moreover have "?h' ! length ?h = x" using fl by (simp add: nth_append)
    ultimately show ?thesis using add by simp
  qed
  from kind show ?thesis
  proof
    assume "is_collection (?h ! f)"
    then obtain q where q: "?h ! f = BridgeCommandCollection q" by (cases "?h ! f") auto
    show ?thesis
      by (rule goal [of "BridgeCommandCollection (q @ [length ?h])"])
         (use st fl q in \<open>simp_all add: add_command_def Let_def\<close>)
  next
    assume "is_repeat (?h ! f)"
    then obtain d n q where q: "?h ! f = BridgeCommandRepeat d n q" by (cases "?h ! f") auto
    show ?thesis
      by (rule goal [of "BridgeCommandRepeat d n (q @ [length ?h])"])
         (use st fl q in \<open>simp_all add: add_command_def Let_def\<close>)
  qed
qed

lemma apply_call_ok:
  assumes "authoring_ok bc" and "apply_call c bc = Inr bc'"
  shows "authoring_ok bc'"
proof (cases c)
  case (AddExecute cb)
  from add_command_ok [OF assms(1), of "BridgeCommandExecute cb"] assms(2) AddExecute
  show ?thesis by (auto simp: add_execute_def)
next
  case (AddRepeatStart delay count)
  from add_command_ok [OF assms(1), of "BridgeCommandRepeat delay count []"]
  obtain bc1 where a: "add_command (BridgeCommandRepeat delay count []) bc
        = Inr (length (heap bc), bc1)"
    and ok1: "authoring_ok bc1" and st1: "m_command_stack bc1 = m_command_stack bc"
    and len1: "length (heap bc1) = Suc (length (heap bc))"
    and new1: "heap bc1 ! length (heap bc) = BridgeCommandRepeat delay count []"
    by auto
  from a assms(2) AddRepeatStart
  have bc': "bc' = bc1\<lparr>m_command_stack := length (heap bc) # m_command_stack bc1\<rparr>"
    by (simp add: add_repeat_start_def)
  from ok1 have "m_command_stack bc1 \<noteq> []" unfolding authoring_ok_def by simp
  with ok1 len1 new1 show ?thesis
    unfolding bc' authoring_ok_def by auto
next
  case AddRepeatEnd
  with assms(2) obtain f below where st: "m_command_stack bc = f # below" "below \<noteq> []"
    and bc': "bc' = bc\<lparr>m_command_stack := below\<rparr>"
    by (cases "m_command_stack bc")
       (auto simp: add_repeat_end_def stack_pop_def split: if_splits)
  with assms(1) show ?thesis
    unfolding authoring_ok_def by auto
next
  case (AddDelay usecs)
  from add_command_ok [OF assms(1), of "BridgeCommandDelay usecs"] assms(2) AddDelay
  show ?thesis by (auto simp: add_delay_def)
next
  case (AddWaitExit ioloop)
  from add_command_ok [OF assms(1), of "BridgeCommandWaitExit ioloop"] assms(2) AddWaitExit
  show ?thesis by (auto simp: add_wait_exit_def)
qed

lemma author_ok:
  "authoring_ok bc \<Longrightarrow> author cs bc = Inr bc' \<Longrightarrow> authoring_ok bc'"
proof (induction cs arbitrary: bc)
  case Nil
  then show ?case by simp
next
  case (Cons c cs)
  from Cons.prems(2) obtain bc1 where c: "apply_call c bc = Inr bc1" and cs: "author cs bc1 = Inr bc'"
    by (auto split: sum.splits)
  from Cons.IH [OF apply_call_ok [OF Cons.prems(1) c] cs] show ?case .
qed

lemma BridgeCommands_ok: "authoring_ok (BridgeCommands w)"
  by (simp add: authoring_ok_def heap_fresh_def BridgeCommands_def)

lemma authoring_ok_frames_ok:
  assumes "authoring_ok bc" and "length (m_command_stack bc) = 1"
  shows "frames_ok (heap bc) (m_command_stack bc)"
proof -
  from assms(2) obtain f where st: "m_command_stack bc = [f]"
    by (cases "m_command_stack bc") auto
  with assms(1) have "f = 0" "0 < length (heap bc)" "is_collection (heap bc ! 0)"
    "heap_fresh (heap bc)"
    unfolding authoring_ok_def by auto
  with st show ?thesis
    unfolding frames_ok_def by (simp add: heap_fresh_heap_ok)
qed

lemma authored_start_bridge_returns:
  assumes "author cs (BridgeCommands w) = Inr bc" and "length (m_command_stack bc) = 1"
  shows "\<exists>fuel rv bc'. start_bridge done fuel bc = Some (Inr (rv, bc'))"
proof -
  have "authoring_ok bc" by (rule author_ok [OF BridgeCommands_ok assms(1)])
  then have ok: "frames_ok (heap bc) (m_command_stack bc)"
    by (rule authoring_ok_frames_ok) (rule assms(2))
  let ?bc0 = "bc\<lparr>timer_delays := timer_delays bc @ [0]\<rparr>"
  from bridge_loop_run_terminates [of ?bc0 "done"] ok
  obtain fuel bc' where "bridge_loop_run done fuel ?bc0 = Some (Inr bc')" by auto
  with assms(2) have "start_bridge done fuel bc = Some (Inr (m_return_value bc', bc'))"
    by (simp add: start_bridge_def queue_next_command_def)
  then show ?thesis by blast
qed

subsection \<open>Unmatched loops\<close>

lemma execute_error:
  "execute done bc this = Inl e \<Longrightarrow> e = UndefinedBehaviour"
proof (induction "done" bc this rule: execute.induct)
  case (1 dn bc this)
  show ?case
  proof (cases "length (heap bc) \<le> this")
    case True
    with "1.prems" show ?thesis by (simp add: execute.simps)
  next
    case False
    then have len: "this < length (heap bc)" by simp
    show ?thesis
    proof (cases "heap bc ! this")
      case (BridgeCommandExecute m_cb)
      with "1.prems" len show ?thesis
        by (simp add: execute_Execute BridgeCommandExecute_execute_def split: prod.splits)
    next
      case (BridgeCommandDelay m_delay)
      with "1.prems" len show ?thesis
        by (simp add: execute_Delay BridgeCommandDelay_execute_def)
    next
      case (BridgeCommandCollection q)
      show ?thesis
      proof (cases q)
        case Nil
        with "1.prems" len BridgeCommandCollection show ?thesis
          by (auto simp: execute_Collection_Nil stack_pop_def split: list.splits)
      next
        case (Cons command rest)
        with "1.prems" len BridgeCommandCollection
        have "execute dn (bc\<lparr>heap := (heap bc)[this := BridgeCommandCollection rest]\<rparr>) command
                = Inl e"
          by (simp add: execute_Collection_Cons)
        from "1.IH" [OF False BridgeCommandCollection Cons this] show ?thesis .
      qed
    next
      case (BridgeCommandRepeat m_delay m_repeat_times q)
      with "1.prems" len show ?thesis
        by (auto simp: repeat_advance split: if_splits list.splits)
    next
      case (BridgeCommandWaitExit m_ioloop)
      with "1.prems" len show ?thesis
        by (simp add: execute_WaitExit BridgeCommandWaitExit_execute_def)
    qed
  qed
qed

lemma bridge_loop_run_error:
  "bridge_loop_run done fuel bc = Some (Inl e) \<Longrightarrow> e = UndefinedBehaviour"
proof (induction fuel arbitrary: bc)
  case 0
  then show ?case by simp
next
  case (Suc fuel)
  show ?case
  proof (cases "timer_event done bc")
    case (Inl e')
    with Suc.prems have "e' = e" by simp
    moreover from Inl have "e' = UndefinedBehaviour"
      by (cases "m_command_stack bc") (auto simp: timer_event_def dest: execute_error)
    ultimately show ?thesis by simp
  next
    case (Inr res)
    obtain r bc1 where "res = (r, bc1)" by (cases res)
    with Suc.prems Inr Suc.IH show ?thesis
      by (auto split: if_splits)
  qed
qed

text \<open>
  Claim C5. \<^verbatim>\<open>start_bridge\<close> throws \<^verbatim>\<open>BridgeUnmatchedLoopException\<close> when more
  than one frame is on the stack, whatever the fuel, so before any timer event; with
  exactly one frame it never throws that exception, and for every program authored on
  a fresh orchestrator the run returns with a value. \<^verbatim>\<open>add_repeat_end\<close> throws the
  exception when at most one frame is on the stack and otherwise pops the top frame.
  A thrown exception is the value \<open>Inl\<close>: no state is returned, the orchestrator is the
  one the call was given.
\<close>

theorem unmatched_loop_errors:
  "(1 < length (m_command_stack bc) \<longrightarrow>
      start_bridge done fuel bc = Some (Inl BridgeUnmatchedLoopException))
   \<and> (length (m_command_stack bc) = 1 \<longrightarrow>
        start_bridge done fuel bc \<noteq> Some (Inl BridgeUnmatchedLoopException))
   \<and> (\<forall>cs w. author cs (BridgeCommands w) = Inr bc \<and> length (m_command_stack bc) = 1 \<longrightarrow>
        (\<exists>fuel' rv bc'. start_bridge done fuel' bc = Some (Inr (rv, bc'))))
   \<and> (length (m_command_stack bc) \<le> 1 \<longrightarrow>
        add_repeat_end bc = Inl BridgeUnmatchedLoopException)
   \<and> (1 < length (m_command_stack bc) \<longrightarrow>
        add_repeat_end bc = Inr (bc\<lparr>m_command_stack := tl (m_command_stack bc)\<rparr>))"
proof (intro conjI impI allI)
  assume "1 < length (m_command_stack bc)"
  then show "start_bridge done fuel bc = Some (Inl BridgeUnmatchedLoopException)"
    by (simp add: start_bridge_def)
next
  assume one: "length (m_command_stack bc) = 1"
  show "start_bridge done fuel bc \<noteq> Some (Inl BridgeUnmatchedLoopException)"
  proof
    assume "start_bridge done fuel bc = Some (Inl BridgeUnmatchedLoopException)"
    with one have "queue_next_command done fuel bc = Some (Inl BridgeUnmatchedLoopException)"
      by (auto simp: start_bridge_def split: option.splits sum.splits)
    then show False
      by (auto simp: queue_next_command_def dest: bridge_loop_run_error)
  qed
next
  fix cs w
  assume "author cs (BridgeCommands w) = Inr bc \<and> length (m_command_stack bc) = 1"
  then have "author cs (BridgeCommands w) = Inr bc" and "length (m_command_stack bc) = 1"
    by simp_all
  then show "\<exists>fuel' rv bc'. start_bridge done fuel' bc = Some (Inr (rv, bc'))"
    by (rule authored_start_bridge_returns)
next
  assume "length (m_command_stack bc) \<le> 1"
  then show "add_repeat_end bc = Inl BridgeUnmatchedLoopException"
    by (simp add: add_repeat_end_def)
next
  assume "1 < length (m_command_stack bc)"
  then show "add_repeat_end bc = Inr (bc\<lparr>m_command_stack := tl (m_command_stack bc)\<rparr>)"
    by (cases "m_command_stack bc") (simp_all add: add_repeat_end_def stack_pop_def)
qed

lemma author_repeat_scenario:
  "author repeat_scenario (BridgeCommands []) =
     Inr (orchestrator
            [BridgeCommandCollection [1, 2, 5], BridgeCommandExecute (named_callback ''A'' 1),
             BridgeCommandRepeat 1000 2 [3, 4], BridgeCommandDelay 500,
             BridgeCommandExecute (named_callback ''B'' 1),
             BridgeCommandExecute (named_callback ''C'' 1)] [0])"
  by (simp add: repeat_scenario_def BridgeCommands_def orchestrator_def add_execute_def
      add_repeat_start_def add_repeat_end_def add_delay_def add_command_def stack_pop_def)

theorem unmatched_loop_errors_witness:
  "start_bridge (- 1) 0
      (orchestrator [BridgeCommandCollection [1], BridgeCommandRepeat 1000 2 []] [1, 0])
     = Some (Inl BridgeUnmatchedLoopException)
   \<and> add_repeat_end (orchestrator [BridgeCommandCollection [1], BridgeCommandRepeat 1000 2 []] [1, 0])
     = Inr (orchestrator [BridgeCommandCollection [1], BridgeCommandRepeat 1000 2 []] [0])
   \<and> add_repeat_end (orchestrator [BridgeCommandCollection []] [0])
     = Inl BridgeUnmatchedLoopException
   \<and> (\<exists>fuel' rv bc'.
         start_bridge (- 1) fuel'
           (orchestrator
              [BridgeCommandCollection [1, 2, 5], BridgeCommandExecute (named_callback ''A'' 1),
               BridgeCommandRepeat 1000 2 [3, 4], BridgeCommandDelay 500,
               BridgeCommandExecute (named_callback ''B'' 1),
               BridgeCommandExecute (named_callback ''C'' 1)] [0])
         = Some (Inr (rv, bc')))"
proof -
  let ?open = "orchestrator [BridgeCommandCollection [1], BridgeCommandRepeat 1000 2 []] [1, 0]"
  let ?fresh = "orchestrator [BridgeCommandCollection []] [0]"
  let ?closed = "orchestrator
              [BridgeCommandCollection [1, 2, 5], BridgeCommandExecute (named_callback ''A'' 1),
               BridgeCommandRepeat 1000 2 [3, 4], BridgeCommandDelay 500,
               BridgeCommandExecute (named_callback ''B'' 1),
               BridgeCommandExecute (named_callback ''C'' 1)] [0]"
  have "1 < length (m_command_stack ?open)" by (simp add: orchestrator_def)
  with unmatched_loop_errors [of ?open "- 1" 0]
  have a: "start_bridge (- 1) 0 ?open = Some (Inl BridgeUnmatchedLoopException)"
    "add_repeat_end ?open = Inr (?open\<lparr>m_command_stack := tl (m_command_stack ?open)\<rparr>)"
    by blast+
  have "length (m_command_stack ?fresh) \<le> 1" by (simp add: orchestrator_def)
  with unmatched_loop_errors [of ?fresh "- 1" 0]
  have b: "add_repeat_end ?fresh = Inl BridgeUnmatchedLoopException"
    by blast
  have "author repeat_scenario (BridgeCommands []) = Inr ?closed
          \<and> length (m_command_stack ?closed) = 1"
    by (simp add: author_repeat_scenario) (simp add: orchestrator_def)
  with unmatched_loop_errors [of ?closed "- 1" 0]
  have c: "\<exists>fuel' rv bc'. start_bridge (- 1) fuel' ?closed = Some (Inr (rv, bc'))"
    by blast
  from a b c show ?thesis
    by (simp add: orchestrator_def)
qed

subsection \<open>Authoring lays the store out in program order\<close>



















subsection \<open>A run leaves what it has not executed as authored\<close>

















lemma run_state_trans:
  "run_state halt bc1 bc2 \<Longrightarrow> run_state halt bc0 bc1 \<Longrightarrow> run_state halt bc0 bc2"
  by (induction rule: run_state.induct) (auto intro: run_state.intros)

lemma bridge_loop_run_run_state:
  "bridge_loop_run halt fuel bc = Some (Inr bc') \<Longrightarrow> run_state halt bc bc'"
proof (induction fuel arbitrary: bc)
  case 0
  then show ?case by simp
next
  case (Suc fuel)
  from Suc.prems obtain r bc1 where step: "timer_event halt bc = Inr (r, bc1)"
    by (auto split: sum.splits)
  have s1: "run_state halt bc bc1"
    by (rule run_state.event [OF run_state.start step])
  show ?case
  proof (cases "r = halt")
    case True
    with Suc.prems step s1 show ?thesis by simp
  next
    case False
    let ?bc2 = "bc1\<lparr>timer_delays := timer_delays bc1 @ [r]\<rparr>"
    from Suc.prems step False have "bridge_loop_run halt fuel ?bc2 = Some (Inr bc')" by simp
    from run_state_trans [OF Suc.IH [OF this] run_state.rearm [OF s1]] show ?thesis .
  qed
qed





end
